theory Spec2Isabelle
  imports Main "HOL-Library.Word"
begin

section \<open>The object store of \<open>src/object-store.js\<close>\<close>

text \<open>
  The store keeps JavaScript objects (instances of \<open>File\<close> and \<open>Folder\<close>) that refer to
  each other: a folder's \<open>#entries\<close> array holds references to its children, and the two
  maps \<open>#objects\<close> and \<open>#parents\<close> map id strings to such references. Two different
  objects may carry the same \<open>id\<close> string, so an object is identified by its address in an
  explicit heap, never by its id.

  \<^item> Names and ids are JavaScript strings of which the code observes only equality and
    emptiness (truthiness); they are modelled as \<open>string\<close>.
  \<^item> Text content is a JavaScript string whose UTF-8 encoding is measured, so it is a list
    of UTF-16 code units; binary content (an \<open>ArrayBuffer\<close>) is a list of bytes.
  \<^item> \<open>new Date()\<close> reads the system clock. The clock is an input of the model:
    \<open>clock s k\<close> is the reading (epoch milliseconds) that the \<open>k\<close>-th call of
    \<open>new Date()\<close> returns, and \<open>ticks s\<close> counts the calls made so far.
  \<^item> The module-level counter \<open>nextId\<close> is the field \<open>nextId\<close> of the state.
  \<^item> A \<open>throw\<close> is the left injection of the result; every operation returns its result
    together with the store as the call leaves it, also when it throws.
\<close>

subsection \<open>Strings, ids and content\<close>

type_synonym addr = nat

datatype kind = File | Folder

datatype content = Text "16 word list" | Binary "8 word list"

definition digit :: "nat \<Rightarrow> char" where
  "digit d = ''0123456789'' ! d"

text \<open>\<open>String(n)\<close> for a non-negative integer \<open>n\<close>: its decimal digits.\<close>

fun String :: "nat \<Rightarrow> string" where
  "String n = (if n < 10 then [digit n] else String (n div 10) @ [digit (n mod 10)])"

declare String.simps [simp del]

text \<open>
  \<open>TextEncoder.encode\<close> (a platform function): the UTF-8 encoding of the code points of a
  UTF-16 string, where a surrogate that is not part of a pair is replaced by U+FFFD.
\<close>

definition is_high :: "16 word \<Rightarrow> bool" where
  "is_high u = (0xD800 \<le> unat u \<and> unat u < 0xDC00)"

definition is_low :: "16 word \<Rightarrow> bool" where
  "is_low u = (0xDC00 \<le> unat u \<and> unat u < 0xE000)"

definition scalar :: "16 word \<Rightarrow> nat" where
  "scalar u = (if is_high u \<or> is_low u then 0xFFFD else unat u)"

fun code_points :: "16 word list \<Rightarrow> nat list" where
  "code_points [] = []"
| "code_points [u] = [scalar u]"
| "code_points (u # v # us) =
     (if is_high u \<and> is_low v
      then (0x10000 + (unat u - 0xD800) * 0x400 + (unat v - 0xDC00)) # code_points us
      else scalar u # code_points (v # us))"

definition utf8 :: "nat \<Rightarrow> 8 word list" where
  "utf8 c =
     (if c < 0x80 then [of_nat c]
      else if c < 0x800 then [of_nat (0xC0 + c div 0x40), of_nat (0x80 + c mod 0x40)]
      else if c < 0x10000 then
        [of_nat (0xE0 + c div 0x1000), of_nat (0x80 + c div 0x40 mod 0x40),
         of_nat (0x80 + c mod 0x40)]
      else
        [of_nat (0xF0 + c div 0x40000), of_nat (0x80 + c div 0x1000 mod 0x40),
         of_nat (0x80 + c div 0x40 mod 0x40), of_nat (0x80 + c mod 0x40)])"

definition encode :: "16 word list \<Rightarrow> 8 word list" where
  "encode t = concat (map utf8 (code_points t))"

text \<open>Truthiness of the values the code tests with \<open>if (x)\<close>.\<close>

fun truthy_string :: "string option \<Rightarrow> bool" where
  "truthy_string None = False"
| "truthy_string (Some t) = (t \<noteq> [])"

fun truthy_content :: "content option \<Rightarrow> bool" where
  "truthy_content None = False"
| "truthy_content (Some (Text t)) = (t \<noteq> [])"
| "truthy_content (Some (Binary b)) = True"

subsection \<open>Entries and the store\<close>

text \<open>
  One record for the class \<open>Entry\<close> and its two subclasses: \<open>content\<close> is the field of
  \<open>File\<close>, \<open>entries\<close> the field of \<open>Folder\<close>, and \<open>etype\<close> (the field \<open>type\<close>, set by the
  constructors only) tells which of the two an object is.
\<close>

record entry =
  eid :: string
  name :: string
  etype :: kind
  createdAt :: nat
  modifiedAt :: nat
  content :: "content option"
  entries :: "addr list"

text \<open>
  \<open>heap\<close> holds every object constructed so far, at the addresses below \<open>nextAddr\<close>;
  the cells from \<open>nextAddr\<close> on are not allocated and never read. A value of \<open>#parents\<close>
  may be \<open>undefined\<close> (the root is registered so), hence the option inside the map.
\<close>

record store =
  heap :: "addr \<Rightarrow> entry"
  nextAddr :: addr
  objects :: "string \<rightharpoonup> addr"
  parents :: "string \<rightharpoonup> addr option"
  root :: addr
  nextId :: nat
  clock :: "nat \<Rightarrow> nat"
  ticks :: nat

datatype error =
    Parent_not_found
  | Parent_is_not_a_folder
  | File_not_found
  | Not_a_file
  | Folder_not_found
  | Not_a_folder
  | File_id_not_found string
  | Parent_id_not_found string
  | Parent_id_not_a_folder string
  | Undefined_receiver
  | Stack_overflow

text \<open>
  The first nine are the \<open>TypeError\<close>s the code throws, by message. \<open>Undefined_receiver\<close> is
  the \<open>TypeError\<close> of the runtime for a method call or a property assignment on
  \<open>undefined\<close>; \<open>Stack_overflow\<close> is its \<open>RangeError\<close> when the call stack is exhausted.
\<close>

fun not_found :: "error \<Rightarrow> bool" where
  "not_found Parent_not_found = True"
| "not_found File_not_found = True"
| "not_found Folder_not_found = True"
| "not_found (File_id_not_found i) = True"
| "not_found (Parent_id_not_found i) = True"
| "not_found e = False"

type_synonym 'a result = "(error + 'a) \<times> store"

text \<open>
  Sequencing: when the first computation has thrown, the exception propagates and the
  store stays as the throw left it; otherwise the second computation runs on the value
  and the store the first one produced.
\<close>

definition bind :: "'a result \<Rightarrow> ('a \<Rightarrow> store \<Rightarrow> 'b result) \<Rightarrow> 'b result" where
  "bind r f = (case r of (Inl e, s) \<Rightarrow> (Inl e, s) | (Inr x, s) \<Rightarrow> f x s)"

definition new_Date :: "store \<Rightarrow> nat \<times> store" where
  "new_Date s = (clock s (ticks s), s\<lparr>ticks := Suc (ticks s)\<rparr>)"

definition upd :: "addr \<Rightarrow> (entry \<Rightarrow> entry) \<Rightarrow> store \<Rightarrow> store" where
  "upd a f s = s\<lparr>heap := (heap s)(a := f (heap s a))\<rparr>"

definition getParent :: "store \<Rightarrow> string \<Rightarrow> addr option" where
  "getParent s i = (case parents s i of None \<Rightarrow> None | Some p \<Rightarrow> p)"

text \<open>
  The field initialisers and the constructor of \<open>Entry\<close>: the id is taken from the
  counter, then the clock is read twice.
\<close>

definition new_Entry :: "string \<Rightarrow> kind \<Rightarrow> store \<Rightarrow> addr \<times> store" where
  "new_Entry nm ty s =
     (let a = nextAddr s;
          i = String (nextId s);
          s1 = s\<lparr>nextId := Suc (nextId s)\<rparr>;
          (t1, s2) = new_Date s1;
          (t2, s3) = new_Date s2;
          e = \<lparr>eid = i, name = nm, etype = ty, createdAt = t1, modifiedAt = t2,
               content = None, entries = []\<rparr>
      in (a, s3\<lparr>heap := (heap s3)(a := e), nextAddr := Suc a\<rparr>))"

definition new_File :: "string \<Rightarrow> content option \<Rightarrow> string option \<Rightarrow> store \<Rightarrow> addr \<times> store" where
  "new_File nm c i s =
     (let (a, s1) = new_Entry nm File s;
          s2 = upd a (\<lambda>e. e\<lparr>content := c\<rparr>) s1
      in (a, if truthy_string i then upd a (\<lambda>e. e\<lparr>eid := the i\<rparr>) s2 else s2))"

definition new_Folder :: "string \<Rightarrow> string option \<Rightarrow> store \<Rightarrow> addr \<times> store" where
  "new_Folder nm i s =
     (let (a, s1) = new_Entry nm Folder s;
          s2 = upd a (\<lambda>e. e\<lparr>entries := []\<rparr>) s1
      in (a, if truthy_string i then upd a (\<lambda>e. e\<lparr>eid := the i\<rparr>) s2 else s2))"

text \<open>The setters of \<open>name\<close> and \<open>content\<close>.\<close>

definition set_name :: "addr \<Rightarrow> string \<Rightarrow> store \<Rightarrow> store" where
  "set_name a n s =
     (let s1 = upd a (\<lambda>e. e\<lparr>name := n\<rparr>) s;
          (t, s2) = new_Date s1
      in upd a (\<lambda>e. e\<lparr>modifiedAt := t\<rparr>) s2)"

definition set_content :: "addr \<Rightarrow> content option \<Rightarrow> store \<Rightarrow> unit result" where
  "set_content a v s =
     (let s1 = upd a (\<lambda>e. e\<lparr>content := v\<rparr>) s;
          (t, s2) = new_Date s1;
          s3 = upd a (\<lambda>e. e\<lparr>modifiedAt := t\<rparr>) s2
      in case getParent s3 (eid (heap s3 a)) of
           None \<Rightarrow> (Inl Undefined_receiver, s3)
         | Some p \<Rightarrow> (Inr (), upd p (\<lambda>e. e\<lparr>modifiedAt := modifiedAt (heap s3 a)\<rparr>) s3))"

text \<open>The getter \<open>size\<close> of \<open>File\<close>.\<close>

definition file_size :: "entry \<Rightarrow> nat" where
  "file_size e =
     (if \<not> truthy_content (content e) then 0
      else case content e of
             Some (Binary b) \<Rightarrow> length b
           | Some (Text t) \<Rightarrow> length (encode t)
           | None \<Rightarrow> 0)"

text \<open>\<open>Folder.add\<close> and \<open>Folder.remove\<close>.\<close>

definition add :: "addr \<Rightarrow> addr \<Rightarrow> store \<Rightarrow> store" where
  "add p c s =
     (let s1 = upd p (\<lambda>e. e\<lparr>entries := entries e @ [c]\<rparr>) s;
          (t, s2) = new_Date s1;
          s3 = upd p (\<lambda>e. e\<lparr>modifiedAt := t\<rparr>) s2
      in upd c (\<lambda>e. e\<lparr>modifiedAt := modifiedAt (heap s3 p)\<rparr>) s3)"

definition remove :: "addr \<Rightarrow> addr \<Rightarrow> store \<Rightarrow> store" where
  "remove p c s =
     (let s1 = upd p (\<lambda>e. e\<lparr>entries :=
                 filter (\<lambda>x. eid (heap s x) \<noteq> eid (heap s c)) (entries e)\<rparr>) s;
          (t, s2) = new_Date s1;
          s3 = upd p (\<lambda>e. e\<lparr>modifiedAt := t\<rparr>) s2
      in upd c (\<lambda>e. e\<lparr>modifiedAt := modifiedAt (heap s3 p)\<rparr>) s3)"

subsection \<open>Records returned to the caller\<close>

datatype json =
    JUndefined
  | JString string
  | JNumber nat
  | JIso nat
  | JArray "json list"
  | JObject "(string \<times> json) list"

text \<open>\<open>JIso t\<close> stands for the string \<open>toISOString()\<close> of the date with epoch value \<open>t\<close>.\<close>

fun kind_string :: "kind \<Rightarrow> string" where
  "kind_string File = ''file''"
| "kind_string Folder = ''folder''"

definition Entry_toMiniJSON :: "store \<Rightarrow> addr \<Rightarrow> (string \<times> json) list" where
  "Entry_toMiniJSON s a =
     (let e = heap s a in
      [(''id'', JString (eid e)),
       (''name'', JString (name e)),
       (''type'', JString (kind_string (etype e))),
       (''parent_id'', case getParent s (eid e) of
                         None \<Rightarrow> JUndefined
                       | Some p \<Rightarrow> JString (eid (heap s p))),
       (''created_at'', JIso (createdAt e)),
       (''modified_at'', JIso (modifiedAt e))])"

text \<open>\<open>toMiniJSON\<close> by dynamic dispatch: \<open>File\<close> overrides it and adds \<open>size\<close>.\<close>

definition toMiniJSON :: "store \<Rightarrow> addr \<Rightarrow> json" where
  "toMiniJSON s a =
     (case etype (heap s a) of
        File \<Rightarrow> JObject (Entry_toMiniJSON s a @ [(''size'', JNumber (file_size (heap s a)))])
      | Folder \<Rightarrow> JObject (Entry_toMiniJSON s a))"

text \<open>
  \<open>toJSON\<close>: \<open>Entry.toJSON\<close> returns \<open>this.toMiniJSON()\<close>; \<open>Folder\<close> overrides it and adds
  the mini records of its entries.
\<close>

definition toJSON :: "store \<Rightarrow> addr \<Rightarrow> json" where
  "toJSON s a =
     (case etype (heap s a) of
        File \<Rightarrow> toMiniJSON s a
      | Folder \<Rightarrow>
          (case toMiniJSON s a of
             JObject kvs \<Rightarrow>
               JObject (kvs @ [(''entries'', JArray (map (toMiniJSON s) (entries (heap s a))))])
           | j \<Rightarrow> j))"

fun field :: "string \<Rightarrow> json \<Rightarrow> json option" where
  "field k (JObject kvs) = map_of kvs k"
| "field k j = None"

fun keys :: "json \<Rightarrow> string list" where
  "keys (JObject kvs) = map fst kvs"
| "keys j = []"

subsection \<open>The store: construction and the registry\<close>

definition register :: "addr \<Rightarrow> addr option \<Rightarrow> store \<Rightarrow> store" where
  "register a parent s =
     (let i = eid (heap s a);
          s1 = s\<lparr>parents := (parents s)(i \<mapsto> parent)\<rparr>;
          s2 = s1\<lparr>objects := (objects s1)(i \<mapsto> a)\<rparr>
      in case parent of None \<Rightarrow> s2 | Some p \<Rightarrow> add p a s2)"

definition unregister :: "addr \<Rightarrow> store \<Rightarrow> unit result" where
  "unregister a s =
     (let i = eid (heap s a);
          parent = getParent s i;
          s1 = s\<lparr>parents := (parents s)(i := None)\<rparr>;
          s2 = s1\<lparr>objects := (objects s1)(i := None)\<rparr>
      in case parent of
           None \<Rightarrow> (Inl Undefined_receiver, s2)
         | Some p \<Rightarrow> (Inr (), remove p a s2))"

text \<open>
  \<open>new ObjectStore({ rootFolderId })\<close>. The arguments \<open>n\<close> and \<open>clk\<close> are the value of the
  module's counter and the clock when the store is constructed.
\<close>

definition ObjectStore :: "nat \<Rightarrow> (nat \<Rightarrow> nat) \<Rightarrow> string option \<Rightarrow> store" where
  "ObjectStore n clk rootFolderId =
     (let s0 = \<lparr>heap = (\<lambda>_. \<lparr>eid = [], name = [], etype = File, createdAt = 0,
                              modifiedAt = 0, content = None, entries = []\<rparr>),
                nextAddr = 0, objects = Map.empty, parents = Map.empty, root = 0,
                nextId = n, clock = clk, ticks = 0\<rparr>;
          (r, s1) = new_Folder ''root'' rootFolderId s0
      in register r None (s1\<lparr>root := r\<rparr>))"

subsection \<open>Files\<close>

definition createFile :: "string \<Rightarrow> string option \<Rightarrow> content option \<Rightarrow> store \<Rightarrow> json result" where
  "createFile nm parentId c s =
     (let pid = (case parentId of None \<Rightarrow> eid (heap s (root s)) | Some p \<Rightarrow> p) in
      case objects s pid of
        None \<Rightarrow> (Inl Parent_not_found, s)
      | Some parent \<Rightarrow>
          if etype (heap s parent) \<noteq> Folder then (Inl Parent_is_not_a_folder, s)
          else let (file, s1) = new_File nm c None s;
                   s2 = register file (Some parent) s1
               in (Inr (toJSON s2 file), s2))"

definition getFile :: "string \<Rightarrow> store \<Rightarrow> json result" where
  "getFile i s =
     (case objects s i of
        None \<Rightarrow> (Inl File_not_found, s)
      | Some file \<Rightarrow>
          if etype (heap s file) \<noteq> File then (Inl Not_a_file, s)
          else (Inr (toJSON s file), s))"

definition getFileContent :: "string \<Rightarrow> store \<Rightarrow> content option result" where
  "getFileContent i s =
     (case objects s i of
        None \<Rightarrow> (Inl (File_id_not_found i), s)
      | Some file \<Rightarrow>
          if etype (heap s file) \<noteq> File then (Inl Not_a_file, s)
          else (Inr (content (heap s file)), s))"

text \<open>
  The move at the end of \<open>updateFile\<close> and \<open>updateFolder\<close>:
  \<open>this.#parents.get(x.id).remove(x); this.#register(x, newParent)\<close>, after the two
  checks of the new parent.
\<close>

definition move :: "addr \<Rightarrow> string \<Rightarrow> store \<Rightarrow> unit result" where
  "move a parentId s =
     (case objects s parentId of
        None \<Rightarrow> (Inl (Parent_id_not_found parentId), s)
      | Some newParent \<Rightarrow>
          if etype (heap s newParent) \<noteq> Folder then (Inl (Parent_id_not_a_folder parentId), s)
          else (case getParent s (eid (heap s a)) of
                  None \<Rightarrow> (Inl Undefined_receiver, s)
                | Some old \<Rightarrow> (Inr (), register a (Some newParent) (remove old a s))))"

definition updateFile ::
  "string \<Rightarrow> string option \<Rightarrow> content option \<Rightarrow> string option \<Rightarrow> store \<Rightarrow> json result" where
  "updateFile i nm c parentId s =
     (case objects s i of
        None \<Rightarrow> (Inl File_not_found, s)
      | Some file \<Rightarrow>
          if etype (heap s file) \<noteq> File then (Inl Not_a_file, s)
          else
            let s1 = (if truthy_string nm then set_name file (the nm) s else s) in
            bind (if truthy_content c then set_content file c s1 else (Inr (), s1))
              (\<lambda>u s2.
                 if truthy_string parentId then
                   bind (move file (the parentId) s2) (\<lambda>u s3. (Inr (toJSON s3 file), s3))
                 else (Inr (toJSON s2 file), s2)))"

definition deleteFile :: "string \<Rightarrow> store \<Rightarrow> unit result" where
  "deleteFile i s =
     (case objects s i of
        None \<Rightarrow> (Inl File_not_found, s)
      | Some file \<Rightarrow>
          if etype (heap s file) \<noteq> File then (Inl Not_a_file, s)
          else unregister file s)"

subsection \<open>Folders\<close>

definition createFolder :: "string \<Rightarrow> string option \<Rightarrow> store \<Rightarrow> json result" where
  "createFolder nm parentId s =
     (let pid = (case parentId of None \<Rightarrow> eid (heap s (root s)) | Some p \<Rightarrow> p) in
      case objects s pid of
        None \<Rightarrow> (Inl Parent_not_found, s)
      | Some parent \<Rightarrow>
          if etype (heap s parent) \<noteq> Folder then (Inl Parent_is_not_a_folder, s)
          else let (folder, s1) = new_Folder nm None s;
                   s2 = register folder (Some parent) s1
               in (Inr (toJSON s2 folder), s2))"

definition getFolder :: "string \<Rightarrow> store \<Rightarrow> json result" where
  "getFolder i s =
     (case objects s i of
        None \<Rightarrow> (Inl Folder_not_found, s)
      | Some folder \<Rightarrow>
          if etype (heap s folder) \<noteq> Folder then (Inl Not_a_folder, s)
          else (Inr (toJSON s folder), s))"

definition updateFolder :: "string \<Rightarrow> string option \<Rightarrow> string option \<Rightarrow> store \<Rightarrow> json result" where
  "updateFolder i nm parentId s =
     (case objects s i of
        None \<Rightarrow> (Inl Folder_not_found, s)
      | Some folder \<Rightarrow>
          if etype (heap s folder) \<noteq> Folder then (Inl Not_a_folder, s)
          else
            let s1 = (if truthy_string nm then set_name folder (the nm) s else s) in
            if truthy_string parentId then
              bind (move folder (the parentId) s1) (\<lambda>u s2. (Inr (toJSON s2 folder), s2))
            else (Inr (toJSON s1 folder), s1))"

text \<open>
  \<open>deleteFolder\<close> calls itself for every subfolder. The first argument is the number of
  nested calls of \<open>deleteFolder\<close> that the call stack of the runtime has room for; a call
  beyond it throws the \<open>RangeError\<close> of the runtime. Only this one place of the overflow
  is modelled. The runtime can also raise the error in any other call made on the way
  (inside \<open>#unregister\<close>, say, between the deletion from the maps and \<open>parent.remove\<close>),
  and the stores such a throw leaves are not values of this function. So the function
  is the code wherever the stack suffices, and its result \<open>Stack_overflow\<close> says no more
  than that the code throws a \<open>RangeError\<close> somewhere; when no call on the way has
  changed the store, as on a folder that is its own only entry, the store it returns is
  the store the code leaves.

  The loop runs over the array that \<open>folder.entries()\<close> iterates, which is the array
  \<open>#entries\<close> holds when the loop starts: \<open>remove\<close> replaces \<open>#entries\<close> by a new,
  filtered array and leaves this one as it is. Each element's \<open>type\<close> and \<open>id\<close> are read
  when its turn comes.
\<close>

fun deleteFolder :: "nat \<Rightarrow> string \<Rightarrow> store \<Rightarrow> unit result"
  and delete_entries :: "nat \<Rightarrow> addr list \<Rightarrow> store \<Rightarrow> unit result" where
  "deleteFolder 0 i s = (Inl Stack_overflow, s)"
| "deleteFolder (Suc d) i s =
     (case objects s i of
        None \<Rightarrow> (Inl Folder_not_found, s)
      | Some folder \<Rightarrow>
          if etype (heap s folder) \<noteq> Folder then (Inl Not_a_folder, s)
          else bind (delete_entries d (entries (heap s folder)) s)
                 (\<lambda>u s1. unregister folder s1))"
| "delete_entries d [] s = (Inr (), s)"
| "delete_entries d (x # xs) s =
     bind (if etype (heap s x) = Folder then deleteFolder d (eid (heap s x)) s
           else deleteFile (eid (heap s x)) s)
       (\<lambda>u s1. delete_entries d xs s1)"

section \<open>Properties of records and example stores\<close>

text \<open>
  A folder record is one level deep: it has an \<open>entries\<close> array, and no element of that
  array has a key \<open>entries\<close>.
\<close>

definition one_level :: "json \<Rightarrow> bool" where
  "one_level j =
     (case field ''entries'' j of
        Some (JArray xs) \<Rightarrow> list_all (\<lambda>x. ''entries'' \<notin> set (keys x)) xs
      | _ \<Rightarrow> False)"

text \<open>
  Example stores. The clock of \<open>store0\<close> advances by one millisecond at every reading.
  \<open>store2\<close> is the root \<open>''0''\<close> with the folder \<open>''1''\<close>, which holds the file
  \<open>''2''\<close> with the text \<open>Hello, world!\<close>.
\<close>

definition hello :: "16 word list" where
  "hello = [72, 101, 108, 108, 111, 44, 32, 119, 111, 114, 108, 100, 33]"

definition store0 :: store where
  "store0 = ObjectStore 0 (\<lambda>k. k) (Some ''0'')"

definition store1 :: store where
  "store1 = snd (createFolder ''foo'' None store0)"

definition store2 :: store where
  "store2 = snd (createFile ''bar.txt'' (Some ''1'') (Some (Text hello)) store1)"

text \<open>
  The parent relation on ids, as the records show it: \<open>parent_id s i\<close> is the value of
  \<open>parent_id\<close> in the record of the entry with id \<open>i\<close>
  (\<open>this.store.getParent(this.id)?.id\<close>).
\<close>

definition parent_id :: "store \<Rightarrow> string \<Rightarrow> string option" where
  "parent_id s i = map_option (\<lambda>p. eid (heap s p)) (getParent s i)"

definition parent_rel :: "store \<Rightarrow> (string \<times> string) set" where
  "parent_rel s = {(i, j). parent_id s i = Some j}"

text \<open>No two of the objects constructed so far have the same id.\<close>

definition unique_ids :: "store \<Rightarrow> bool" where
  "unique_ids s = inj_on (\<lambda>a. eid (heap s a)) {a. a < nextAddr s}"

text \<open>
  A store constructed with the root id \<open>''1''\<close> while the counter is 0, and one file
  created in it.
\<close>

definition store_collide :: store where
  "store_collide = snd (createFile ''f'' None None (ObjectStore 0 (\<lambda>k. k) (Some ''1'')))"

section \<open>The registry as a tree\<close>

text \<open>
  An object is registered when \<open>#objects\<close> maps its id to it. The registry is
  consistent (\<open>store_inv\<close>) when
  \<^item> every key of \<open>#objects\<close> is the id of its value;
  \<^item> the parent recorded for an id is a registered folder that lists the entry
    registered under this id;
  \<^item> every element of the \<open>#entries\<close> of a registered object is registered, with this
    object as its parent;
  \<^item> no \<open>#entries\<close> array of a registered object lists an object twice.
\<close>

definition registered :: "store \<Rightarrow> addr \<Rightarrow> bool" where
  "registered s a = (objects s (eid (heap s a)) = Some a)"

definition inv_keys :: "store \<Rightarrow> bool" where
  "inv_keys s = (\<forall>i a. objects s i = Some a \<longrightarrow> eid (heap s a) = i)"

definition inv_parents :: "store \<Rightarrow> bool" where
  "inv_parents s =
     (\<forall>i p. getParent s i = Some p \<longrightarrow>
        registered s p \<and> etype (heap s p) = Folder \<and>
        (\<exists>a. objects s i = Some a \<and> a \<in> set (entries (heap s p))))"

definition inv_children :: "store \<Rightarrow> bool" where
  "inv_children s =
     (\<forall>p c. registered s p \<longrightarrow> c \<in> set (entries (heap s p)) \<longrightarrow>
        registered s c \<and> getParent s (eid (heap s c)) = Some p)"

definition inv_distinct :: "store \<Rightarrow> bool" where
  "inv_distinct s = (\<forall>p. registered s p \<longrightarrow> distinct (entries (heap s p)))"

definition store_inv :: "store \<Rightarrow> bool" where
  "store_inv s = (inv_keys s \<and> inv_parents s \<and> inv_children s \<and> inv_distinct s)"

text \<open>
  \<open>ranked s rk b\<close>: among the registered objects of rank below \<open>b\<close>, every element of
  the \<open>#entries\<close> of an object has a smaller rank than the object. Below a folder of
  rank less than \<open>b\<close> there is then no cycle, and no chain of entries longer than its
  rank; the objects of rank \<open>b\<close> and more are not constrained.
\<close>

definition ranked :: "store \<Rightarrow> (addr \<Rightarrow> nat) \<Rightarrow> nat \<Rightarrow> bool" where
  "ranked s rk b =
     (\<forall>p c. registered s p \<longrightarrow> rk p < b \<longrightarrow> c \<in> set (entries (heap s p)) \<longrightarrow>
        rk c < rk p)"

text \<open>
  \<open>survives s s'\<close>: the registry of \<open>s'\<close> is the registry of \<open>s\<close> without some of its
  ids.
\<close>

definition survives :: "store \<Rightarrow> store \<Rightarrow> bool" where
  "survives s s' =
     (\<forall>i. (objects s' i = None \<and> parents s' i = None) \<or>
          (objects s' i = objects s i \<and> parents s' i = parents s i))"

text \<open>
  \<open>shrinks s s'\<close>: from \<open>s\<close> to \<open>s'\<close> no object has changed its id or kind, no
  \<open>#entries\<close> array has gained an element, the registry has only lost ids, and nothing
  has been constructed.
\<close>

definition shrinks :: "store \<Rightarrow> store \<Rightarrow> bool" where
  "shrinks s s' =
     ((\<forall>x. eid (heap s' x) = eid (heap s x) \<and> etype (heap s' x) = etype (heap s x) \<and>
           set (entries (heap s' x)) \<subseteq> set (entries (heap s x))) \<and>
      survives s s' \<and> nextAddr s' = nextAddr s \<and> nextId s' = nextId s)"

text \<open>
  \<open>removed rk a s s'\<close>: the id of \<open>a\<close> is no longer registered in \<open>s'\<close>, and every
  object that was registered in \<open>s\<close> with a rank above the rank of \<open>a\<close> still is, with
  the same \<open>#entries\<close> except for \<open>a\<close>.
\<close>

definition removed :: "(addr \<Rightarrow> nat) \<Rightarrow> addr \<Rightarrow> store \<Rightarrow> store \<Rightarrow> bool" where
  "removed rk a s s' =
     (objects s' (eid (heap s a)) = None \<and>
      (\<forall>q. registered s q \<longrightarrow> rk a < rk q \<longrightarrow>
         registered s' q \<and>
         entries (heap s' q) = filter (\<lambda>c. c \<noteq> a) (entries (heap s q))))"


text \<open>
  \<open>emptied rk a xs s s'\<close>: \<open>a\<close> is still registered in \<open>s'\<close>, without the elements
  \<open>xs\<close> of its \<open>#entries\<close>, and every object that was registered in \<open>s\<close> with a rank
  above the rank of \<open>a\<close> still is, with the same \<open>#entries\<close>.
\<close>

definition emptied :: "(addr \<Rightarrow> nat) \<Rightarrow> addr \<Rightarrow> addr list \<Rightarrow> store \<Rightarrow> store \<Rightarrow> bool" where
  "emptied rk a xs s s' =
     (registered s' a \<and>
      entries (heap s' a) = filter (\<lambda>c. c \<notin> set xs) (entries (heap s a)) \<and>
      (\<forall>q. registered s q \<longrightarrow> rk a < rk q \<longrightarrow>
         registered s' q \<and> entries (heap s' q) = entries (heap s q)))"

text \<open>
  What \<open>deleteFolder\<close> achieves on the registered folder \<open>a\<close> with \<open>d\<close> nested calls
  available: the registry stays consistent; the call returns when the rank of \<open>a\<close> is
  below \<open>d\<close> and \<open>a\<close> has a parent; and when it returns, \<open>a\<close> is removed.
\<close>

definition delete_ok :: "(addr \<Rightarrow> nat) \<Rightarrow> nat \<Rightarrow> addr \<Rightarrow> store \<Rightarrow> bool" where
  "delete_ok rk d a s =
     (let r = deleteFolder d (eid (heap s a)) s in
      store_inv (snd r) \<and>
      (rk a < d \<longrightarrow> objects (snd r) (eid (heap s a)) = None \<and>
         fst r = (case getParent s (eid (heap s a)) of
                    None \<Rightarrow> Inl Undefined_receiver | Some p \<Rightarrow> Inr ())) \<and>
      (fst r = Inr () \<longrightarrow> removed rk a s (snd r)))"


text \<open>The \<open>entries\<close> array of a folder record.\<close>

definition record_entries :: "json \<Rightarrow> json list" where
  "record_entries j = (case field ''entries'' j of Some (JArray xs) \<Rightarrow> xs | _ \<Rightarrow> [])"

text \<open>The \<open>entries\<close> array of the record \<open>getFolder\<close> returns.\<close>

definition folder_entries :: "string \<Rightarrow> store \<Rightarrow> json list option" where
  "folder_entries i s =
     (case fst (getFolder i s) of Inr j \<Rightarrow> Some (record_entries j) | Inl e \<Rightarrow> None)"

text \<open>
  \<open>store_cycle\<close>: the root and the folder \<open>''1''\<close>, moved into itself.
  \<open>store_mixed\<close>: \<open>store3\<close> (the root with the folder \<open>''1''\<close>, which holds the file
  \<open>''2''\<close>, and with the folder \<open>''3''\<close>) after the folder \<open>''3''\<close> has been moved
  into itself. \<open>rank_mixed\<close> ranks the folder \<open>''1''\<close> 1, its file 0 and everything
  else 5.
\<close>

definition store_cycle :: store where
  "store_cycle = snd (updateFolder ''1'' None (Some ''1'') store1)"

definition rank_mixed :: "addr \<Rightarrow> nat" where
  "rank_mixed a = (if a = 1 then 1 else if a = 2 then 0 else 5)"

text \<open>
  Allocation: the registered objects have been constructed (their addresses are below
  \<open>nextAddr\<close>), and no id the counter has yet to issue is registered.
\<close>

definition alloc_inv :: "store \<Rightarrow> bool" where
  "alloc_inv s =
     ((\<forall>i a. objects s i = Some a \<longrightarrow> a < nextAddr s) \<and>
      (\<forall>m. nextId s \<le> m \<longrightarrow> objects s (String m) = None))"

definition good :: "store \<Rightarrow> bool" where
  "good s = (store_inv s \<and> alloc_inv s)"

text \<open>The value of a decimal digit string, to invert \<open>String\<close>.\<close>

definition digit_value :: "char \<Rightarrow> nat" where
  "digit_value c = of_char c - of_char CHR ''0''"

fun decimal :: "nat \<Rightarrow> string \<Rightarrow> nat" where
  "decimal acc [] = acc"
| "decimal acc (c # cs) = decimal (10 * acc + digit_value c) cs"

text \<open>\<open>store3\<close> is \<open>store2\<close> with a second folder, \<open>''3''\<close>, in the root.\<close>

definition store3 :: store where
  "store3 = snd (createFolder ''baz'' None store2)"

definition store_mixed :: store where
  "store_mixed = snd (updateFolder ''3'' None (Some ''3'') store3)"


section \<open>Sequences of calls\<close>

text \<open>
  A call of a public method, with its arguments; \<open>DeleteFolder d i\<close> is the call
  \<open>deleteFolder(i)\<close> made when the call stack has room for \<open>d\<close> nested calls. \<open>step\<close> is
  the store after the call, whether it returns or throws.
\<close>

datatype call =
    CreateFile string "string option" "content option"
  | CreateFolder string "string option"
  | GetFile string
  | GetFileContent string
  | GetFolder string
  | UpdateFile string "string option" "content option" "string option"
  | UpdateFolder string "string option" "string option"
  | DeleteFile string
  | DeleteFolder nat string

fun step :: "call \<Rightarrow> store \<Rightarrow> store" where
  "step (CreateFile nm p c) s = snd (createFile nm p c s)"
| "step (CreateFolder nm p) s = snd (createFolder nm p s)"
| "step (GetFile i) s = snd (getFile i s)"
| "step (GetFileContent i) s = snd (getFileContent i s)"
| "step (GetFolder i) s = snd (getFolder i s)"
| "step (UpdateFile i nm c p) s = snd (updateFile i nm c p s)"
| "step (UpdateFolder i nm p) s = snd (updateFolder i nm p s)"
| "step (DeleteFile i) s = snd (deleteFile i s)"
| "step (DeleteFolder d i) s = snd (deleteFolder d i s)"

fun run :: "call list \<Rightarrow> store \<Rightarrow> store" where
  "run [] s = s"
| "run (c # cs) s = run cs (step c s)"

text \<open>
  A tree: a consistent registry whose parent relation has no cycle. \<open>descendants s a\<close>
  counts the ids whose chain of parents leads to the id of \<open>a\<close>; in a tree it is a rank.
\<close>

definition tree :: "store \<Rightarrow> bool" where
  "tree s = (good s \<and> acyclic (parent_rel s))"

definition descendants :: "store \<Rightarrow> addr \<Rightarrow> nat" where
  "descendants s a = card {j. (j, eid (heap s a)) \<in> (parent_rel s)\<^sup>+}"

text \<open>
  The calls that keep a tree a tree: all but an \<open>updateFolder\<close> whose new parent is the
  folder itself or one of its descendants. A \<open>deleteFolder\<close> that exhausts the stack is
  left out as well, since the store the code leaves then is not modelled.
\<close>

fun safe :: "call \<Rightarrow> store \<Rightarrow> bool" where
  "safe (UpdateFolder i nm p) s = (truthy_string p \<longrightarrow> (the p, i) \<notin> (parent_rel s)\<^sup>*)"
| "safe (DeleteFolder d i) s = (fst (deleteFolder d i s) \<noteq> Inl Stack_overflow)"
| "safe c s = True"

fun safe_run :: "call list \<Rightarrow> store \<Rightarrow> bool" where
  "safe_run [] s = True"
| "safe_run (c # cs) s = (safe c s \<and> safe_run cs (step c s))"


text \<open>
  The ids of the objects constructed so far are below the counter, or the root id the
  caller supplied.
\<close>

definition ids_inv :: "store \<Rightarrow> bool" where
  "ids_inv s =
     (unique_ids s \<and>
      (\<forall>a m. a < nextAddr s \<longrightarrow> nextId s \<le> m \<longrightarrow> eid (heap s a) \<noteq> String m))"

text \<open>
  The root id a caller may supply when the counter is \<open>n\<close>: none, the empty string
  (ignored by the constructor), or a string that is not the decimal form of a number
  above \<open>n\<close>.
\<close>

definition root_id_ok :: "nat \<Rightarrow> string option \<Rightarrow> bool" where
  "root_id_ok n r = (\<forall>m. n < m \<longrightarrow> r \<noteq> Some (String m))"

section \<open>Copying, as the specification describes it\<close>












text \<open>
  \<open>extends s p s'\<close>: \<open>s'\<close> is \<open>s\<close> after objects have been constructed and registered.
  The registry is consistent, the clock is the same, what was registered still is, and
  the objects of \<open>s\<close> are as they were, but for the entries of \<open>p\<close> and the times of
  modification. The new objects have ids that were not registered in \<open>s\<close>, and their
  times of creation are readings of the clock that \<open>s\<close> had not made.
\<close>

definition extends :: "store \<Rightarrow> addr \<Rightarrow> store \<Rightarrow> bool" where
  "extends s p s' =
     (good s' \<and> nextAddr s \<le> nextAddr s' \<and> ticks s \<le> ticks s' \<and> clock s' = clock s \<and>
      (\<forall>i a. objects s i = Some a \<longrightarrow> objects s' i = Some a) \<and>
      (\<forall>x<nextAddr s.
          eid (heap s' x) = eid (heap s x) \<and> etype (heap s' x) = etype (heap s x) \<and>
          name (heap s' x) = name (heap s x) \<and> content (heap s' x) = content (heap s x) \<and>
          createdAt (heap s' x) = createdAt (heap s x) \<and>
          (x \<noteq> p \<longrightarrow> entries (heap s' x) = entries (heap s x))) \<and>
      (\<forall>x. nextAddr s \<le> x \<longrightarrow> x < nextAddr s' \<longrightarrow>
          objects s (eid (heap s' x)) = None \<and>
          (\<exists>k\<ge>ticks s. createdAt (heap s' x) = clock s k)))"


section \<open>Evaluation and frame lemmas\<close>

lemmas store_defs = ObjectStore_def new_Folder_def new_File_def new_Entry_def new_Date_def upd_def
  register_def unregister_def add_def remove_def getParent_def set_name_def set_content_def move_def
lemmas op_defs = createFile_def createFolder_def updateFile_def updateFolder_def deleteFile_def
  getFile_def getFolder_def
lemmas json_defs = toJSON_def toMiniJSON_def Entry_toMiniJSON_def file_size_def
lemmas eval_defs = store_defs op_defs json_defs Let_def String.simps digit_def

lemma bind_simps [simp]:
  "bind (Inl e, s) f = (Inl e, s)"
  "bind (Inr x, s) f = f x s"
  by (simp_all add: bind_def)

lemma bind_ok: "fst r = Inr x \<Longrightarrow> bind r f = f x (snd r)"
  by (cases r) simp

lemma bind_err: "fst r = Inl e \<Longrightarrow> bind r f = (Inl e, snd r)"
  by (cases r) simp

lemma fst_bind:
  "fst (bind r f) = (case fst r of Inl e \<Rightarrow> Inl e | Inr x \<Rightarrow> fst (f x (snd r)))"
  by (cases r) (simp split: sum.splits)

lemma snd_bind:
  "snd (bind r f) = (case fst r of Inl e \<Rightarrow> snd r | Inr x \<Rightarrow> snd (f x (snd r)))"
  by (cases r) (simp split: sum.splits)

text \<open>What each registry primitive changes, field by field.\<close>

lemma add_fields [simp]:
  "eid (heap (add p c s) x) = eid (heap s x)"
  "etype (heap (add p c s) x) = etype (heap s x)"
  "name (heap (add p c s) x) = name (heap s x)"
  "content (heap (add p c s) x) = content (heap s x)"
  "createdAt (heap (add p c s) x) = createdAt (heap s x)"
  "entries (heap (add p c s) x) = (if x = p then entries (heap s p) @ [c] else entries (heap s x))"
  "objects (add p c s) = objects s"
  "parents (add p c s) = parents s"
  "nextAddr (add p c s) = nextAddr s"
  "nextId (add p c s) = nextId s"
  "root (add p c s) = root s"
  "clock (add p c s) = clock s"
  by (simp_all add: add_def upd_def new_Date_def Let_def)

lemma remove_fields [simp]:
  "eid (heap (remove p c s) x) = eid (heap s x)"
  "etype (heap (remove p c s) x) = etype (heap s x)"
  "name (heap (remove p c s) x) = name (heap s x)"
  "content (heap (remove p c s) x) = content (heap s x)"
  "createdAt (heap (remove p c s) x) = createdAt (heap s x)"
  "entries (heap (remove p c s) x) =
     (if x = p then filter (\<lambda>y. eid (heap s y) \<noteq> eid (heap s c)) (entries (heap s p))
      else entries (heap s x))"
  "objects (remove p c s) = objects s"
  "parents (remove p c s) = parents s"
  "nextAddr (remove p c s) = nextAddr s"
  "nextId (remove p c s) = nextId s"
  "root (remove p c s) = root s"
  "clock (remove p c s) = clock s"
  by (simp_all add: remove_def upd_def new_Date_def Let_def)

lemma set_name_fields [simp]:
  "eid (heap (set_name a n s) x) = eid (heap s x)"
  "etype (heap (set_name a n s) x) = etype (heap s x)"
  "name (heap (set_name a n s) x) = (if x = a then n else name (heap s x))"
  "content (heap (set_name a n s) x) = content (heap s x)"
  "createdAt (heap (set_name a n s) x) = createdAt (heap s x)"
  "entries (heap (set_name a n s) x) = entries (heap s x)"
  "objects (set_name a n s) = objects s"
  "parents (set_name a n s) = parents s"
  "nextAddr (set_name a n s) = nextAddr s"
  "nextId (set_name a n s) = nextId s"
  "root (set_name a n s) = root s"
  "clock (set_name a n s) = clock s"
  by (simp_all add: set_name_def upd_def new_Date_def Let_def)

lemma set_content_fields [simp]:
  "eid (heap (snd (set_content a v s)) x) = eid (heap s x)"
  "etype (heap (snd (set_content a v s)) x) = etype (heap s x)"
  "name (heap (snd (set_content a v s)) x) = name (heap s x)"
  "content (heap (snd (set_content a v s)) x) = (if x = a then v else content (heap s x))"
  "createdAt (heap (snd (set_content a v s)) x) = createdAt (heap s x)"
  "entries (heap (snd (set_content a v s)) x) = entries (heap s x)"
  "objects (snd (set_content a v s)) = objects s"
  "parents (snd (set_content a v s)) = parents s"
  "nextAddr (snd (set_content a v s)) = nextAddr s"
  "nextId (snd (set_content a v s)) = nextId s"
  "root (snd (set_content a v s)) = root s"
  "clock (snd (set_content a v s)) = clock s"
  by (simp_all add: set_content_def upd_def new_Date_def getParent_def Let_def split: option.splits)

lemma getParent_frame [simp]:
  "getParent (add p c s) = getParent s"
  "getParent (remove p c s) = getParent s"
  "getParent (set_name a n s) = getParent s"
  "getParent (snd (set_content a v s)) = getParent s"
  by (simp_all add: getParent_def fun_eq_iff)

lemma register_fields [simp]:
  "eid (heap (register a q s) x) = eid (heap s x)"
  "etype (heap (register a q s) x) = etype (heap s x)"
  "name (heap (register a q s) x) = name (heap s x)"
  "content (heap (register a q s) x) = content (heap s x)"
  "createdAt (heap (register a q s) x) = createdAt (heap s x)"
  "entries (heap (register a q s) x) =
     (if q = Some x then entries (heap s x) @ [a] else entries (heap s x))"
  "objects (register a q s) = (objects s)(eid (heap s a) \<mapsto> a)"
  "parents (register a q s) = (parents s)(eid (heap s a) \<mapsto> q)"
  "nextAddr (register a q s) = nextAddr s"
  "nextId (register a q s) = nextId s"
  "root (register a q s) = root s"
  "clock (register a q s) = clock s"
  by (auto simp add: register_def Let_def split: option.splits)

lemma unregister_fields [simp]:
  "eid (heap (snd (unregister a s)) x) = eid (heap s x)"
  "etype (heap (snd (unregister a s)) x) = etype (heap s x)"
  "name (heap (snd (unregister a s)) x) = name (heap s x)"
  "content (heap (snd (unregister a s)) x) = content (heap s x)"
  "createdAt (heap (snd (unregister a s)) x) = createdAt (heap s x)"
  "entries (heap (snd (unregister a s)) x) =
     (if getParent s (eid (heap s a)) = Some x
      then filter (\<lambda>y. eid (heap s y) \<noteq> eid (heap s a)) (entries (heap s x))
      else entries (heap s x))"
  "objects (snd (unregister a s)) = (objects s)(eid (heap s a) := None)"
  "parents (snd (unregister a s)) = (parents s)(eid (heap s a) := None)"
  "nextAddr (snd (unregister a s)) = nextAddr s"
  "nextId (snd (unregister a s)) = nextId s"
  "root (snd (unregister a s)) = root s"
  "clock (snd (unregister a s)) = clock s"
  by (auto simp add: unregister_def Let_def split: option.splits)

lemma unregister_result:
  "fst (unregister a s) = (case getParent s (eid (heap s a)) of None \<Rightarrow> Inl Undefined_receiver | Some p \<Rightarrow> Inr ())"
  by (simp add: unregister_def Let_def split: option.splits)

lemma move_fields [simp]:
  "eid (heap (snd (move a i s)) x) = eid (heap s x)"
  "etype (heap (snd (move a i s)) x) = etype (heap s x)"
  "name (heap (snd (move a i s)) x) = name (heap s x)"
  "content (heap (snd (move a i s)) x) = content (heap s x)"
  "createdAt (heap (snd (move a i s)) x) = createdAt (heap s x)"
  "nextAddr (snd (move a i s)) = nextAddr s"
  "nextId (snd (move a i s)) = nextId s"
  "root (snd (move a i s)) = root s"
  "clock (snd (move a i s)) = clock s"
  by (simp_all add: move_def split: option.splits)

section \<open>File size\<close>

lemma encode_hello: "length (encode hello) = 13"
  by (simp add: hello_def encode_def utf8_def scalar_def is_high_def is_low_def)

lemma store2_file:
  "objects store2 ''2'' = Some 2 \<and> etype (heap store2 2) = File \<and>
   content (heap store2 2) = Some (Text hello)"
  by (simp add: store2_def store1_def store0_def eval_defs)

text \<open>
  C8. The \<open>size\<close> of the record of a file (the record \<open>getFile\<close> returns, which is the
  \<open>toJSON\<close> every file operation returns) is 0 when the file has no content, the length
  of the UTF-8 encoding when the content is text, and the number of bytes when it is
  binary.
\<close>

theorem file_record_size:
  assumes "objects s i = Some a" and "etype (heap s a) = File"
  shows "getFile i s = (Inr (toJSON s a), s) \<and>
         field ''size'' (toJSON s a) =
           Some (JNumber (case content (heap s a) of
                            None \<Rightarrow> 0
                          | Some (Text t) \<Rightarrow> length (encode t)
                          | Some (Binary b) \<Rightarrow> length b))"
proof -
  have "file_size (heap s a) =
          (case content (heap s a) of
             None \<Rightarrow> 0 | Some (Text t) \<Rightarrow> length (encode t) | Some (Binary b) \<Rightarrow> length b)"
    by (auto simp: file_size_def encode_def split: option.splits content.splits)
  then show ?thesis
    using assms by (simp add: getFile_def toJSON_def toMiniJSON_def Entry_toMiniJSON_def Let_def)
qed

theorem file_record_size_witness:
  "getFile ''2'' store2 = (Inr (toJSON store2 2), store2) \<and>
   field ''size'' (toJSON store2 2) = Some (JNumber 13)"
  using file_record_size [of store2 "''2''" 2] store2_file encode_hello by simp

section \<open>Folder records are one level deep\<close>

lemma toMiniJSON_keys: "''entries'' \<notin> set (keys (toMiniJSON s a))"
  by (simp add: toMiniJSON_def Entry_toMiniJSON_def Let_def split: kind.splits)

lemma toJSON_Folder:
  "etype (heap s a) = Folder \<Longrightarrow>
   toJSON s a = JObject (Entry_toMiniJSON s a @
     [(''entries'', JArray (map (toMiniJSON s) (entries (heap s a))))])"
  by (simp add: toJSON_def toMiniJSON_def)

lemma field_entries_toJSON:
  "etype (heap s a) = Folder \<Longrightarrow>
   field ''entries'' (toJSON s a) = Some (JArray (map (toMiniJSON s) (entries (heap s a))))"
  by (simp add: toJSON_Folder Entry_toMiniJSON_def Let_def)

lemma toJSON_one_level: "etype (heap s a) = Folder \<Longrightarrow> one_level (toJSON s a)"
  by (simp add: one_level_def field_entries_toJSON list_all_iff toMiniJSON_keys)

text \<open>
  C9. Whatever the store holds, a record returned by \<open>getFolder\<close>, \<open>createFolder\<close> or
  \<open>updateFolder\<close> has an \<open>entries\<close> array none of whose elements has a key \<open>entries\<close>.
\<close>

theorem folder_record_one_level:
  assumes "r = getFolder i s \<or> r = createFolder nm p s \<or> r = updateFolder i nm' p' s"
    and "fst r = Inr j"
  shows "one_level j"
proof -
  consider (g) "r = getFolder i s" | (c) "r = createFolder nm p s"
    | (u) "r = updateFolder i nm' p' s"
    using assms(1) by blast
  then show ?thesis
  proof cases
    case g
    with assms(2) show ?thesis
      by (auto simp: getFolder_def toJSON_one_level split: option.splits if_splits)
  next
    case c
    with assms(2) show ?thesis
      by (auto simp: createFolder_def new_Folder_def new_Entry_def new_Date_def upd_def Let_def
          intro!: toJSON_one_level split: option.splits if_splits prod.splits)
  next
    case u
    with assms(2) show ?thesis
      by (auto simp: updateFolder_def Let_def fst_bind intro!: toJSON_one_level
          split: option.splits if_splits sum.splits)
  qed
qed

lemmas store2_eval = store2_def store1_def store0_def eval_defs

lemma store2_facts:
  "objects store2 ''0'' = Some 0" "objects store2 ''1'' = Some 1" "objects store2 ''2'' = Some 2"
  "etype (heap store2 0) = Folder" "etype (heap store2 1) = Folder" "etype (heap store2 2) = File"
  "entries (heap store2 0) = [1]" "entries (heap store2 1) = [2]" "entries (heap store2 2) = []"
  "getParent store2 ''0'' = None" "getParent store2 ''1'' = Some 0" "getParent store2 ''2'' = Some 1"
  "eid (heap store2 0) = ''0''" "eid (heap store2 1) = ''1''" "eid (heap store2 2) = ''2''"
  "name (heap store2 2) = ''bar.txt''" "root store2 = 0" "nextAddr store2 = 3" "nextId store2 = 3"
  by (simp_all add: store2_eval)

theorem folder_record_one_level_witness:
  "fst (getFolder ''0'' store2) = Inr (toJSON store2 0) \<and> one_level (toJSON store2 0) \<and>
   field ''entries'' (toJSON store2 0) = Some (JArray [toMiniJSON store2 1])"
proof -
  have r: "fst (getFolder ''0'' store2) = Inr (toJSON store2 0)"
    by (simp add: getFolder_def store2_facts)
  from folder_record_one_level [of "getFolder ''0'' store2" "''0''" store2, OF _ r]
  show ?thesis using r by (simp add: field_entries_toJSON store2_facts)
qed

section \<open>Empty values in \<open>updateFile\<close>\<close>

lemma updateFile_name_frame:
  "\<not> truthy_string nm \<Longrightarrow> name (heap (snd (updateFile i nm c p s)) a) = name (heap s a)"
  by (simp add: updateFile_def Let_def snd_bind split: option.splits sum.splits)

lemma updateFile_content_frame:
  "\<not> truthy_content c \<Longrightarrow> content (heap (snd (updateFile i nm c p s)) a) = content (heap s a)"
  by (simp add: updateFile_def Let_def snd_bind split: option.splits sum.splits)

lemma updateFile_content_set:
  "truthy_content c \<Longrightarrow> objects s i = Some a \<Longrightarrow> etype (heap s a) = File \<Longrightarrow>
   content (heap (snd (updateFile i nm c p s)) a) = c"
  by (simp add: updateFile_def Let_def snd_bind split: option.splits sum.splits)

text \<open>
  C10. For an existing file, \<open>updateFile\<close> with the name \<open>""\<close> leaves the name as it
  is; with the content \<open>""\<close> it leaves content and size as they are, and when nothing else
  is supplied it returns the record of the unchanged store (so \<open>modified_at\<close> is
  unchanged too). No call of \<open>updateFile\<close> makes the content absent or the empty string
  unless it was so before.
\<close>

theorem updateFile_ignores_empty:
  assumes "objects s i = Some a" and "etype (heap s a) = File"
  shows "name (heap (snd (updateFile i (Some []) c p s)) a) = name (heap s a) \<and>
         content (heap (snd (updateFile i nm (Some (Text [])) p s)) a) = content (heap s a) \<and>
         file_size (heap (snd (updateFile i nm (Some (Text [])) p s)) a) = file_size (heap s a) \<and>
         updateFile i None (Some (Text [])) None s = (Inr (toJSON s a), s) \<and>
         (\<not> truthy_content (content (heap (snd (updateFile i nm c p s)) a)) \<longrightarrow>
            content (heap (snd (updateFile i nm c p s)) a) = content (heap s a))"
proof -
  have 1: "name (heap (snd (updateFile i (Some []) c p s)) a) = name (heap s a)"
    by (simp add: updateFile_name_frame)
  have 2: "content (heap (snd (updateFile i nm (Some (Text [])) p s)) a) = content (heap s a)"
    by (simp add: updateFile_content_frame)
  have 3: "file_size (heap (snd (updateFile i nm (Some (Text [])) p s)) a) = file_size (heap s a)"
    using 2 by (simp add: file_size_def)
  have 4: "updateFile i None (Some (Text [])) None s = (Inr (toJSON s a), s)"
    using assms by (simp add: updateFile_def)
  have 5: "\<not> truthy_content (content (heap (snd (updateFile i nm c p s)) a)) \<longrightarrow>
            content (heap (snd (updateFile i nm c p s)) a) = content (heap s a)"
    using assms updateFile_content_set [of c s i a nm p] updateFile_content_frame [of c i nm p s a]
    by (cases "truthy_content c") simp_all
  from 1 2 3 4 5 show ?thesis by blast
qed

theorem updateFile_ignores_empty_witness:
  "name (heap (snd (updateFile ''2'' (Some []) None None store2)) 2) = ''bar.txt'' \<and>
   content (heap (snd (updateFile ''2'' None (Some (Text [])) None store2)) 2) = Some (Text hello) \<and>
   updateFile ''2'' None (Some (Text [])) None store2 = (Inr (toJSON store2 2), store2)"
  using updateFile_ignores_empty [of store2 "''2''" 2 None None None]
  by (simp add: store2_facts store2_file)

section \<open>Calls that throw after they have changed the store\<close>

text \<open>
  C1. \<open>updateFile\<close> and \<open>updateFolder\<close> apply the new name before they look the new
  parent up: on \<open>store2\<close> both throw for the parent id \<open>''9''\<close>, and the entry is renamed
  all the same. \<open>deleteFolder\<close> on the root deletes every entry, removes the root from the
  registry and then throws, since the root has no parent to be removed from.
\<close>

theorem throwing_calls_change_the_store:
  "fst (updateFile ''2'' (Some ''baz.txt'') None (Some ''9'') store2)
     = Inl (Parent_id_not_found ''9'') \<and>
   name (heap store2 2) = ''bar.txt'' \<and>
   name (heap (snd (updateFile ''2'' (Some ''baz.txt'') None (Some ''9'') store2)) 2)
     = ''baz.txt'' \<and>
   fst (updateFolder ''1'' (Some ''qux'') (Some ''9'') store2)
     = Inl (Parent_id_not_found ''9'') \<and>
   name (heap store2 1) = ''foo'' \<and>
   name (heap (snd (updateFolder ''1'' (Some ''qux'') (Some ''9'') store2)) 1) = ''qux'' \<and>
   fst (deleteFolder 3 ''0'' store2) = Inl Undefined_receiver \<and>
   objects store2 ''2'' = Some 2 \<and>
   objects (snd (deleteFolder 3 ''0'' store2)) = Map.empty"
  by (simp add: store2_eval eval_nat_numeral)

section \<open>Timestamps of a new entry\<close>

text \<open>
  C5. The constructor reads the clock for \<open>createdAt\<close> and \<open>add\<close> reads it again for
  \<open>modifiedAt\<close>. On \<open>store0\<close>, whose clock advances between the readings, the records
  returned by \<open>createFile\<close> and \<open>createFolder\<close> have \<open>created_at\<close> 2 and
  \<open>modified_at\<close> 4.
\<close>

theorem create_timestamps_differ:
  "map_sum id (field ''created_at'') (fst (createFile ''foo.txt'' None None store0))
     = Inr (Some (JIso 2)) \<and>
   map_sum id (field ''modified_at'') (fst (createFile ''foo.txt'' None None store0))
     = Inr (Some (JIso 4)) \<and>
   map_sum id (field ''created_at'') (fst (createFolder ''foo'' None store0))
     = Inr (Some (JIso 2)) \<and>
   map_sum id (field ''modified_at'') (fst (createFolder ''foo'' None store0))
     = Inr (Some (JIso 4))"
  by (simp add: store2_eval eval_nat_numeral)

section \<open>Cycles and colliding ids\<close>

text \<open>
  \<open>updateFolder\<close> with the folder's own id as the new parent succeeds: the record it
  returns has \<open>parent_id\<close> equal to \<open>id\<close>, and the parent relation has a cycle.
\<close>

theorem updateFolder_into_itself:
  "map_sum id (field ''id'') (fst (updateFolder ''1'' None (Some ''1'') store2))
     = Inr (Some (JString ''1'')) \<and>
   map_sum id (field ''parent_id'') (fst (updateFolder ''1'' None (Some ''1'') store2))
     = Inr (Some (JString ''1'')) \<and>
   (''1'', ''1'') \<in> parent_rel (snd (updateFolder ''1'' None (Some ''1'') store2)) \<and>
   \<not> acyclic (parent_rel (snd (updateFolder ''1'' None (Some ''1'') store2)))"
proof -
  have 1: "(''1'', ''1'') \<in> parent_rel (snd (updateFolder ''1'' None (Some ''1'') store2))"
    by (simp add: parent_rel_def parent_id_def store2_eval)
  then have "\<not> acyclic (parent_rel (snd (updateFolder ''1'' None (Some ''1'') store2)))"
    unfolding acyclic_def by blast
  moreover have "map_sum id (field ''id'') (fst (updateFolder ''1'' None (Some ''1'') store2))
      = Inr (Some (JString ''1''))"
    by (simp add: store2_eval)
  moreover have
    "map_sum id (field ''parent_id'') (fst (updateFolder ''1'' None (Some ''1'') store2))
      = Inr (Some (JString ''1''))"
    by (simp add: store2_eval)
  ultimately show ?thesis using 1 by blast
qed

text \<open>
  A root id supplied by the caller is not checked against the counter: in
  \<open>store_collide\<close> the root folder and the file created next are two objects with the id
  \<open>''1''\<close>.
\<close>

theorem root_id_collides:
  "nextAddr store_collide = 2 \<and> root store_collide = 0 \<and>
   eid (heap store_collide 0) = ''1'' \<and> eid (heap store_collide 1) = ''1'' \<and>
   etype (heap store_collide 0) = Folder \<and> etype (heap store_collide 1) = File \<and>
   \<not> unique_ids store_collide"
proof -
  have 1: "nextAddr store_collide = 2 \<and> root store_collide = 0 \<and>
   eid (heap store_collide 0) = ''1'' \<and> eid (heap store_collide 1) = ''1'' \<and>
   etype (heap store_collide 0) = Folder \<and> etype (heap store_collide 1) = File"
    by (simp add: store_collide_def eval_defs)
  have "\<not> unique_ids store_collide"
  proof
    assume "unique_ids store_collide"
    then have "inj_on (\<lambda>a. eid (heap store_collide a)) {a. a < nextAddr store_collide}"
      by (simp add: unique_ids_def)
    then have "(0::nat) = 1"
      by (rule inj_onD) (use 1 in simp_all)
    then show False by simp
  qed
  with 1 show ?thesis by blast
qed

section \<open>Consistency of the registry\<close>

lemma store_invD:
  assumes "store_inv s"
  shows inv_keysD: "objects s i = Some a \<Longrightarrow> eid (heap s a) = i"
    and inv_parentsD: "getParent s i = Some p \<Longrightarrow>
          registered s p \<and> etype (heap s p) = Folder \<and>
          (\<exists>a. objects s i = Some a \<and> a \<in> set (entries (heap s p)))"
    and inv_childrenD: "registered s p \<Longrightarrow> c \<in> set (entries (heap s p)) \<Longrightarrow>
          registered s c \<and> getParent s (eid (heap s c)) = Some p"
    and inv_distinctD: "registered s p \<Longrightarrow> distinct (entries (heap s p))"
  using assms
  by (auto simp: store_inv_def inv_keys_def inv_parents_def inv_children_def inv_distinct_def)

lemma registered_eq:
  "store_inv s \<Longrightarrow> registered s x \<Longrightarrow> registered s y \<Longrightarrow> eid (heap s x) = eid (heap s y) \<Longrightarrow> x = y"
  by (simp add: registered_def)

lemma registeredI: "store_inv s \<Longrightarrow> objects s i = Some a \<Longrightarrow> registered s a"
  by (simp add: registered_def inv_keysD)

lemma child_of_parent:
  assumes "store_inv s" "objects s i = Some a" "getParent s i = Some p"
  shows "a \<in> set (entries (heap s p))"
  using inv_parentsD [OF assms(1) assms(3)] assms(2) by auto

text \<open>The invariant depends on the ids, the kinds, the entries and the two maps only.\<close>

lemma store_inv_cong:
  assumes "\<And>x. eid (heap s' x) = eid (heap s x)"
    and "\<And>x. etype (heap s' x) = etype (heap s x)"
    and "\<And>x. entries (heap s' x) = entries (heap s x)"
    and "objects s' = objects s" and "parents s' = parents s"
  shows "store_inv s' = store_inv s"
  using assms
  by (simp add: store_inv_def inv_keys_def inv_parents_def inv_children_def inv_distinct_def
      registered_def getParent_def)

lemma filter_id_is_remove:
  assumes "store_inv s" "registered s p" "registered s a"
  shows "filter (\<lambda>y. eid (heap s y) \<noteq> eid (heap s a)) (entries (heap s p))
       = filter (\<lambda>y. y \<noteq> a) (entries (heap s p))"
proof (rule filter_cong [OF refl])
  fix y assume "y \<in> set (entries (heap s p))"
  then have "registered s y" using inv_childrenD [OF assms(1,2)] by blast
  then show "(eid (heap s y) \<noteq> eid (heap s a)) = (y \<noteq> a)"
    using registered_eq [OF assms(1) _ assms(3)] by auto
qed

lemma filter_absent: "a \<notin> set xs \<Longrightarrow> filter (\<lambda>y. y \<noteq> a) xs = xs"
  by (induction xs) auto

lemma length_filter_remove1:
  "distinct xs \<Longrightarrow> a \<in> set xs \<Longrightarrow> Suc (length (filter (\<lambda>y. y \<noteq> a) xs)) = length xs"
  by (induction xs) (auto simp: filter_absent)

text \<open>What a move does to the \<open>#entries\<close> arrays of a consistent store.\<close>

lemma move_entries:
  assumes inv: "store_inv s" and a: "registered s a"
    and par: "getParent s (eid (heap s a)) = Some old"
    and new: "objects s pid = Some new" and fol: "etype (heap s new) = Folder"
  shows "fst (move a pid s) = Inr ()"
    and "entries (heap (snd (move a pid s)) x) =
          (if x = new then filter (\<lambda>y. y \<noteq> a) (entries (heap s x)) @ [a]
           else if x = old then filter (\<lambda>y. y \<noteq> a) (entries (heap s x))
           else entries (heap s x))"
proof -
  have old: "registered s old" using inv_parentsD [OF inv par] by simp
  have f: "filter (\<lambda>y. eid (heap s y) \<noteq> eid (heap s a)) (entries (heap s old))
       = filter (\<lambda>y. y \<noteq> a) (entries (heap s old))"
    by (rule filter_id_is_remove [OF inv old a])
  show "fst (move a pid s) = Inr ()"
    using par new fol by (simp add: move_def)
  have nn: "x = new \<Longrightarrow> x \<noteq> old \<Longrightarrow> filter (\<lambda>y. y \<noteq> a) (entries (heap s x)) = entries (heap s x)"
  proof -
    assume x: "x = new" "x \<noteq> old"
    have "registered s new" using registeredI [OF inv new] .
    then have "a \<notin> set (entries (heap s new))"
      using inv_childrenD [OF inv, of new a] par x by auto
    then show ?thesis using x by (simp add: filter_absent)
  qed
  show "entries (heap (snd (move a pid s)) x) =
          (if x = new then filter (\<lambda>y. y \<noteq> a) (entries (heap s x)) @ [a]
           else if x = old then filter (\<lambda>y. y \<noteq> a) (entries (heap s x))
           else entries (heap s x))"
    using par new fol f nn by (auto simp: move_def)
qed

section \<open>Moving an entry\<close>

lemma store_inv_set_name [simp]: "store_inv (set_name a n s) = store_inv s"
  by (rule store_inv_cong) simp_all

lemma store_inv_set_content [simp]: "store_inv (snd (set_content a v s)) = store_inv s"
  by (rule store_inv_cong) simp_all

lemma registered_set_name [simp]: "registered (set_name a n s) x = registered s x"
  by (simp add: registered_def)

lemma registered_set_content [simp]: "registered (snd (set_content a v s)) x = registered s x"
  by (simp add: registered_def)

lemma parent_id_frame [simp]:
  "parent_id (set_name a n s) = parent_id s"
  "parent_id (snd (set_content a v s)) = parent_id s"
  by (simp_all add: parent_id_def fun_eq_iff)

lemma folder_entries_eq:
  "objects s i = Some a \<Longrightarrow> etype (heap s a) = Folder \<Longrightarrow>
   folder_entries i s = Some (map (toMiniJSON s) (entries (heap s a)))"
  by (simp add: folder_entries_def getFolder_def record_entries_def field_entries_toJSON)

lemma field_id_toMiniJSON: "field ''id'' (toMiniJSON s x) = Some (JString (eid (heap s x)))"
  by (simp add: toMiniJSON_def Entry_toMiniJSON_def Let_def split: kind.splits)

lemma move_objects:
  assumes "store_inv s" "registered s a"
  shows "objects (snd (move a pid s)) = objects s"
  using assms by (auto simp: move_def registered_def split: option.splits)

text \<open>One lemma for the move at the end of both update operations.\<close>

lemma move_lengths:
  assumes inv: "store_inv s" and a: "objects s i = Some a"
    and ok: "fst (move a pid s) = Inr ()"
    and par: "parent_id s i = Some oi" and ne: "oi \<noteq> pid"
  shows "\<exists>old new.
           objects s oi = Some old \<and> etype (heap s old) = Folder \<and>
           objects s pid = Some new \<and> etype (heap s new) = Folder \<and>
           a \<in> set (entries (heap s old)) \<and> distinct (entries (heap s old)) \<and>
           (\<forall>y\<in>set (entries (heap s old)). y \<noteq> a \<longrightarrow> eid (heap s y) \<noteq> i) \<and>
           folder_entries oi (snd (move a pid s))
             = Some (map (toMiniJSON (snd (move a pid s)))
                 (filter (\<lambda>y. y \<noteq> a) (entries (heap s old)))) \<and>
           folder_entries pid (snd (move a pid s))
             = Some (map (toMiniJSON (snd (move a pid s))) (entries (heap s new) @ [a]))"
proof -
  let ?s = "snd (move a pid s)"
  have ia: "eid (heap s a) = i" using inv_keysD [OF inv a] .
  have ra: "registered s a" using registeredI [OF inv a] .
  obtain old where old: "getParent s i = Some old" "eid (heap s old) = oi"
    using par by (auto simp: parent_id_def)
  have rold: "registered s old" and fold: "etype (heap s old) = Folder"
    using inv_parentsD [OF inv old(1)] by simp_all
  have oold: "objects s oi = Some old" using rold old(2) by (simp add: registered_def)
  obtain new where new: "objects s pid = Some new" and fnew: "etype (heap s new) = Folder"
    using ok old ia by (auto simp: move_def split: option.splits if_splits)
  have neq: "old \<noteq> new" using ne oold new inv_keysD [OF inv] by auto
  have par': "getParent s (eid (heap s a)) = Some old" using old ia by simp
  have ent: "\<And>x. entries (heap ?s x) =
          (if x = new then filter (\<lambda>y. y \<noteq> a) (entries (heap s x)) @ [a]
           else if x = old then filter (\<lambda>y. y \<noteq> a) (entries (heap s x))
           else entries (heap s x))"
    by (rule move_entries(2) [OF inv ra par' new fnew])
  have obj: "objects ?s = objects s" by (rule move_objects [OF inv ra])
  have ain: "a \<in> set (entries (heap s old))"
    using child_of_parent [OF inv a old(1)] .
  have dis: "distinct (entries (heap s old))" using inv_distinctD [OF inv rold] .
  have anew: "a \<notin> set (entries (heap s new))"
    using inv_childrenD [OF inv registeredI [OF inv new], of a] par' neq by auto
  have ids: "\<forall>y\<in>set (entries (heap s old)). y \<noteq> a \<longrightarrow> eid (heap s y) \<noteq> i"
  proof (intro ballI impI)
    fix y assume y: "y \<in> set (entries (heap s old))" "y \<noteq> a"
    have "registered s y" using inv_childrenD [OF inv rold y(1)] by simp
    then show "eid (heap s y) \<noteq> i"
      using registered_eq [OF inv _ ra, of y] y(2) ia by auto
  qed
  have 3: "folder_entries oi ?s
      = Some (map (toMiniJSON ?s) (filter (\<lambda>y. y \<noteq> a) (entries (heap s old))))"
    using folder_entries_eq [of ?s oi old] oold fold obj ent [of old] neq by simp
  have 4: "folder_entries pid ?s = Some (map (toMiniJSON ?s) (entries (heap s new) @ [a]))"
    using folder_entries_eq [of ?s pid new] new fnew obj ent [of new] anew
    by (simp add: filter_absent)
  show ?thesis
    by (rule exI [of _ old], rule exI [of _ new]) (simp add: 3 4 oold fold new fnew ain dis ids)
qed

lemma move_lengths_records:
  assumes inv: "store_inv s" and a: "objects s i = Some a"
    and ok: "fst (move a pid s) = Inr ()"
    and par: "parent_id s i = Some oi" and ne: "oi \<noteq> pid"
    and same: "\<And>x. entries (heap s0 x) = entries (heap s x)"
      "\<And>x. etype (heap s0 x) = etype (heap s x)" "objects s0 = objects s"
  shows "\<exists>xs ys xs' ys'.
           folder_entries oi s0 = Some xs \<and> folder_entries oi (snd (move a pid s)) = Some xs' \<and>
           folder_entries pid s0 = Some ys \<and> folder_entries pid (snd (move a pid s)) = Some ys' \<and>
           Suc (length xs') = length xs \<and> length ys' = Suc (length ys) \<and>
           (\<forall>x\<in>set xs'. field ''id'' x \<noteq> Some (JString i)) \<and>
           field ''id'' (last ys') = Some (JString i)"
proof -
  let ?s = "snd (move a pid s)"
  from move_lengths [OF inv a ok par ne] obtain old new where
    f: "objects s oi = Some old" "etype (heap s old) = Folder"
       "objects s pid = Some new" "etype (heap s new) = Folder"
       "a \<in> set (entries (heap s old))" "distinct (entries (heap s old))"
       "\<forall>y\<in>set (entries (heap s old)). y \<noteq> a \<longrightarrow> eid (heap s y) \<noteq> i"
       "folder_entries oi ?s
          = Some (map (toMiniJSON ?s) (filter (\<lambda>y. y \<noteq> a) (entries (heap s old))))"
       "folder_entries pid ?s = Some (map (toMiniJSON ?s) (entries (heap s new) @ [a]))"
    by (elim exE conjE)
  have 1: "folder_entries oi s0 = Some (map (toMiniJSON s0) (entries (heap s old)))"
    using folder_entries_eq [of s0 oi old] f(1,2) same by simp
  have 2: "folder_entries pid s0 = Some (map (toMiniJSON s0) (entries (heap s new)))"
    using folder_entries_eq [of s0 pid new] f(3,4) same by simp
  have 3: "Suc (length (filter (\<lambda>y. y \<noteq> a) (entries (heap s old)))) = length (entries (heap s old))"
    by (rule length_filter_remove1 [OF f(6) f(5)])
  have 4: "\<forall>x\<in>set (map (toMiniJSON ?s) (filter (\<lambda>y. y \<noteq> a) (entries (heap s old)))).
             field ''id'' x \<noteq> Some (JString i)"
    using f(7) by (auto simp: field_id_toMiniJSON)
  have 5: "field ''id'' (last (map (toMiniJSON ?s) (entries (heap s new) @ [a]))) = Some (JString i)"
    using inv_keysD [OF inv a] by (simp add: field_id_toMiniJSON)
  show ?thesis
    apply (rule exI [of _ "map (toMiniJSON s0) (entries (heap s old))"])
    apply (rule exI [of _ "map (toMiniJSON s0) (entries (heap s new))"])
    apply (rule exI [of _ "map (toMiniJSON ?s) (filter (\<lambda>y. y \<noteq> a) (entries (heap s old)))"])
    apply (rule exI [of _ "map (toMiniJSON ?s) (entries (heap s new) @ [a])"])
    using 1 2 3 4 5 f(8,9) apply simp
    done
qed

text \<open>A successful update with a parent id ends with a successful move.\<close>

lemma updateFile_as_move:
  assumes "fst (updateFile i nm c (Some pid) s) = Inr j" and "pid \<noteq> []"
  shows "\<exists>a s2. objects s i = Some a \<and> fst (move a pid s2) = Inr () \<and>
           snd (updateFile i nm c (Some pid) s) = snd (move a pid s2) \<and>
           (\<forall>x. entries (heap s2 x) = entries (heap s x)) \<and>
           (\<forall>x. etype (heap s2 x) = etype (heap s x)) \<and>
           objects s2 = objects s \<and> store_inv s2 = store_inv s \<and> parent_id s2 = parent_id s"
proof -
  obtain a where a: "objects s i = Some a"
    using assms(1) by (auto simp: updateFile_def split: option.splits)
  have et: "etype (heap s a) = File"
    using assms(1) a by (simp add: updateFile_def split: if_splits)
  define s1 where "s1 = (if truthy_string nm then set_name a (the nm) s else s)"
  define r1 where "r1 = (if truthy_content c then set_content a c s1 else (Inr (), s1))"
  define r2 where "r2 = move a pid (snd r1)"
  have u: "updateFile i nm c (Some pid) s =
      bind r1 (\<lambda>u s2. bind (move a pid s2) (\<lambda>u s3. (Inr (toJSON s3 a), s3)))"
    using a et assms(2) by (simp add: updateFile_def s1_def r1_def Let_def)
  have k1: "fst r1 = Inr ()"
    using assms(1) unfolding u by (cases "fst r1") (simp_all add: bind_err)
  have u2: "updateFile i nm c (Some pid) s = bind r2 (\<lambda>u s3. (Inr (toJSON s3 a), s3))"
    unfolding u r2_def by (simp add: bind_ok [OF k1])
  have k2: "fst r2 = Inr ()"
    using assms(1) unfolding u2 by (cases "fst r2") (simp_all add: bind_err)
  have e: "snd (updateFile i nm c (Some pid) s) = snd r2"
    unfolding u2 by (simp add: bind_ok [OF k2])
  have f: "\<forall>x. entries (heap (snd r1) x) = entries (heap s x)"
    "\<forall>x. etype (heap (snd r1) x) = etype (heap s x)"
    "objects (snd r1) = objects s" "store_inv (snd r1) = store_inv s"
    "parent_id (snd r1) = parent_id s"
    by (simp_all add: r1_def s1_def)
  show ?thesis
    by (rule exI [of _ a], rule exI [of _ "snd r1"]) (use a k2 e f in \<open>simp add: r2_def\<close>)
qed

lemma updateFolder_as_move:
  assumes "fst (updateFolder i nm (Some pid) s) = Inr j" and "pid \<noteq> []"
  shows "\<exists>a s2. objects s i = Some a \<and> fst (move a pid s2) = Inr () \<and>
           snd (updateFolder i nm (Some pid) s) = snd (move a pid s2) \<and>
           (\<forall>x. entries (heap s2 x) = entries (heap s x)) \<and>
           (\<forall>x. etype (heap s2 x) = etype (heap s x)) \<and>
           objects s2 = objects s \<and> store_inv s2 = store_inv s \<and> parent_id s2 = parent_id s"
proof -
  obtain a where a: "objects s i = Some a"
    using assms(1) by (auto simp: updateFolder_def split: option.splits)
  have et: "etype (heap s a) = Folder"
    using assms(1) a by (simp add: updateFolder_def split: if_splits)
  define s1 where "s1 = (if truthy_string nm then set_name a (the nm) s else s)"
  define r2 where "r2 = move a pid s1"
  have u2: "updateFolder i nm (Some pid) s = bind r2 (\<lambda>u s3. (Inr (toJSON s3 a), s3))"
    using a et assms(2) by (simp add: updateFolder_def s1_def r2_def Let_def)
  have k2: "fst r2 = Inr ()"
    using assms(1) unfolding u2 by (cases "fst r2") (simp_all add: bind_err)
  have e: "snd (updateFolder i nm (Some pid) s) = snd r2"
    unfolding u2 by (simp add: bind_ok [OF k2])
  have f: "\<forall>x. entries (heap s1 x) = entries (heap s x)"
    "\<forall>x. etype (heap s1 x) = etype (heap s x)"
    "objects s1 = objects s" "store_inv s1 = store_inv s" "parent_id s1 = parent_id s"
    by (simp_all add: s1_def)
  show ?thesis
    by (rule exI [of _ a], rule exI [of _ s1]) (use a k2 e f in \<open>simp add: r2_def\<close>)
qed

text \<open>
  C7. In a consistent store, a successful \<open>updateFile\<close> or \<open>updateFolder\<close> with a parent id
  \<open>pid\<close> other than the id \<open>oi\<close> of the current parent makes the \<open>entries\<close> of the record
  of \<open>oi\<close> one shorter, with no element that has the id of the moved entry, and the
  \<open>entries\<close> of the record of \<open>pid\<close> one longer, with the moved entry last.
\<close>

theorem move_entries_lengths:
  assumes "store_inv s"
    and "r = updateFile i nm c (Some pid) s \<or> r = updateFolder i nm (Some pid) s"
    and "pid \<noteq> []" and "fst r = Inr j"
    and "parent_id s i = Some oi" and "oi \<noteq> pid"
  shows "\<exists>xs ys xs' ys'.
           folder_entries oi s = Some xs \<and> folder_entries oi (snd r) = Some xs' \<and>
           folder_entries pid s = Some ys \<and> folder_entries pid (snd r) = Some ys' \<and>
           Suc (length xs') = length xs \<and> length ys' = Suc (length ys) \<and>
           (\<forall>x\<in>set xs'. field ''id'' x \<noteq> Some (JString i)) \<and>
           field ''id'' (last ys') = Some (JString i)"
proof -
  have "\<exists>a s2. objects s i = Some a \<and> fst (move a pid s2) = Inr () \<and>
           snd r = snd (move a pid s2) \<and>
           (\<forall>x. entries (heap s2 x) = entries (heap s x)) \<and>
           (\<forall>x. etype (heap s2 x) = etype (heap s x)) \<and>
           objects s2 = objects s \<and> store_inv s2 = store_inv s \<and> parent_id s2 = parent_id s"
    using assms(2)
  proof
    assume "r = updateFile i nm c (Some pid) s"
    then show ?thesis using updateFile_as_move [of i nm c pid s j] assms(3,4) by simp
  next
    assume "r = updateFolder i nm (Some pid) s"
    then show ?thesis using updateFolder_as_move [of i nm pid s j] assms(3,4) by simp
  qed
  then obtain a s2 where h: "objects s i = Some a" "fst (move a pid s2) = Inr ()"
    "snd r = snd (move a pid s2)" "\<forall>x. entries (heap s2 x) = entries (heap s x)"
    "\<forall>x. etype (heap s2 x) = etype (heap s x)"
    "objects s2 = objects s" "store_inv s2 = store_inv s" "parent_id s2 = parent_id s"
    by (elim exE conjE)
  have i2: "store_inv s2" "objects s2 i = Some a" "parent_id s2 i = Some oi"
    using assms(1,5) h by simp_all
  have "\<exists>xs ys xs' ys'.
           folder_entries oi s = Some xs \<and> folder_entries oi (snd (move a pid s2)) = Some xs' \<and>
           folder_entries pid s = Some ys \<and> folder_entries pid (snd (move a pid s2)) = Some ys' \<and>
           Suc (length xs') = length xs \<and> length ys' = Suc (length ys) \<and>
           (\<forall>x\<in>set xs'. field ''id'' x \<noteq> Some (JString i)) \<and>
           field ''id'' (last ys') = Some (JString i)"
    by (rule move_lengths_records [OF i2(1,2) h(2) i2(3) assms(6)]) (simp_all add: h)
  then show ?thesis by (simp only: h(3))
qed

section \<open>The decimal form of the counter is injective\<close>

lemma digit_value_digit: "d < 10 \<Longrightarrow> digit_value (digit d) = d"
  by (auto simp: eval_nat_numeral less_Suc_eq digit_def digit_value_def)

lemma decimal_append: "decimal acc (xs @ ys) = decimal (decimal acc xs) ys"
  by (induction xs arbitrary: acc) simp_all

lemma String_small: "n < 10 \<Longrightarrow> String n = [digit n]"
  by (subst String.simps) simp

lemma String_large: "\<not> n < 10 \<Longrightarrow> String n = String (n div 10) @ [digit (n mod 10)]"
  by (subst String.simps) simp

lemma decimal_String: "decimal 0 (String n) = n"
proof (induction n rule: String.induct)
  case (1 n)
  show ?case
  proof (cases "n < 10")
    case True
    have s: "String n = [digit n]" using True by (rule String_small)
    show ?thesis unfolding s using digit_value_digit [OF True] by simp
  next
    case False
    have ih: "decimal 0 (String (n div 10)) = n div 10" using 1 False by blast
    have "n mod 10 < 10" by simp
    then have dv: "digit_value (digit (n mod 10)) = n mod 10" by (rule digit_value_digit)
    have s: "String n = String (n div 10) @ [digit (n mod 10)]"
      using False by (rule String_large)
    show ?thesis unfolding s by (simp add: decimal_append ih dv)
  qed
qed


lemma String_inj: "String m = String n \<Longrightarrow> m = n"
proof -
  assume "String m = String n"
  then have "decimal 0 (String m) = decimal 0 (String n)" by (rule arg_cong)
  then show "m = n" by (simp only: decimal_String)
qed

lemma String_eq_iff [simp]: "String m = String n \<longleftrightarrow> m = n"
  using String_inj [of m n] by blast

section \<open>Construction and creation keep the registry consistent\<close>

lemma alloc_invD:
  assumes "alloc_inv s"
  shows alloc_addr: "objects s i = Some a \<Longrightarrow> a < nextAddr s"
    and alloc_id: "nextId s \<le> m \<Longrightarrow> objects s (String m) = None"
  using assms by (auto simp: alloc_inv_def)

lemma goodD: "good s \<Longrightarrow> store_inv s" "good s \<Longrightarrow> alloc_inv s"
  by (simp_all add: good_def)

lemma registered_alloc: "good s \<Longrightarrow> registered s x \<Longrightarrow> x < nextAddr s"
  using alloc_addr [of s "eid (heap s x)" x] by (simp add: good_def registered_def)

lemma registered_not_fresh:
  "good s \<Longrightarrow> registered s x \<Longrightarrow> nextId s \<le> m \<Longrightarrow> eid (heap s x) \<noteq> String m"
  using alloc_id [of s m] by (auto simp: good_def registered_def)

lemma good_create:
  assumes g: "good s" and par: "objects s pid = Some parent" "etype (heap s parent) = Folder"
    and a: "a = nextAddr s" and i: "i = String (nextId s)"
    and e1: "\<And>x. eid (heap s' x) = (if x = a then i else eid (heap s x))"
    and e2: "\<And>x. x \<noteq> a \<Longrightarrow> etype (heap s' x) = etype (heap s x)"
    and e3: "\<And>x. entries (heap s' x) =
               (if x = parent then entries (heap s parent) @ [a]
                else if x = a then [] else entries (heap s x))"
    and o: "objects s' = (objects s)(i \<mapsto> a)"
    and p: "parents s' = (parents s)(i \<mapsto> Some parent)"
    and n: "nextAddr s' = Suc a" "nextId s' = Suc (nextId s)"
  shows "good s'"
proof -
  have inv: "store_inv s" and al: "alloc_inv s" using g by (simp_all add: good_def)
  have rpar: "registered s parent" using registeredI [OF inv par(1)] .
  have fresh_i: "objects s i = None" using alloc_id [OF al, of "nextId s"] i by simp
  have reg_lt: "\<And>x. registered s x \<Longrightarrow> x \<noteq> a \<and> eid (heap s x) \<noteq> i"
    using registered_alloc [OF g] registered_not_fresh [OF g, of _ "nextId s"] a i by auto
  have gp: "\<And>j. getParent s' j = (if j = i then Some parent else getParent s j)"
    by (simp add: getParent_def p)
  have reg': "\<And>x. registered s' x = (x = a \<or> registered s x)"
  proof -
    fix x show "registered s' x = (x = a \<or> registered s x)"
    proof (cases "x = a")
      case True then show ?thesis by (simp add: registered_def e1 o)
    next
      case False
      show ?thesis
      proof (cases "eid (heap s x) = i")
        case True
        then have "\<not> registered s x" using reg_lt [of x] by blast
        then show ?thesis using False True by (simp add: registered_def e1 o)
      next
        case F2: False
        then show ?thesis using False by (simp add: registered_def e1 o)
      qed
    qed
  qed
  have K: "inv_keys s'"
    unfolding inv_keys_def
  proof (intro allI impI)
    fix j b assume jb: "objects s' j = Some b"
    show "eid (heap s' b) = j"
    proof (cases "j = i")
      case True then show ?thesis using jb by (simp add: o e1)
    next
      case False
      then have b: "objects s j = Some b" using jb by (simp add: o)
      then have "b \<noteq> a" using alloc_addr [OF al b] a by simp
      then show ?thesis using inv_keysD [OF inv b] by (simp add: e1)
    qed
  qed
  have P: "inv_parents s'"
    unfolding inv_parents_def
  proof (intro allI impI)
    fix j q assume jq: "getParent s' j = Some q"
    show "registered s' q \<and> etype (heap s' q) = Folder \<and>
          (\<exists>b. objects s' j = Some b \<and> b \<in> set (entries (heap s' q)))"
    proof (cases "j = i")
      case True
      then have q: "q = parent" using jq by (simp add: gp)
      have "parent \<noteq> a" using reg_lt [OF rpar] by simp
      then show ?thesis using True q rpar par(2) by (simp add: reg' e2 e3 o)
    next
      case False
      then have q: "getParent s j = Some q" using jq by (simp add: gp)
      from inv_parentsD [OF inv q] obtain b where
        b: "registered s q" "etype (heap s q) = Folder" "objects s j = Some b"
           "b \<in> set (entries (heap s q))" by blast
      have "q \<noteq> a" using reg_lt [OF b(1)] by simp
      then show ?thesis using b False by (auto simp: reg' e2 e3 o)
    qed
  qed
  have C: "inv_children s'"
    unfolding inv_children_def
  proof (intro allI impI)
    fix q c assume q: "registered s' q" and c: "c \<in> set (entries (heap s' q))"
    have qa: "q \<noteq> a"
    proof
      assume "q = a"
      moreover have "parent \<noteq> a" using reg_lt [OF rpar] by simp
      ultimately show False using c by (simp add: e3)
    qed
    then have rq: "registered s q" using q by (simp add: reg')
    show "registered s' c \<and> getParent s' (eid (heap s' c)) = Some q"
    proof (cases "c = a")
      case True
      then have "q = parent"
        using c qa inv_childrenD [OF inv rq, of a] reg_lt [of a]
        by (auto simp: e3 split: if_splits)
      then show ?thesis using True by (simp add: reg' e1 gp)
    next
      case False
      then have c': "c \<in> set (entries (heap s q))" using c qa by (auto simp: e3 split: if_splits)
      from inv_childrenD [OF inv rq c'] have
        rc: "registered s c" "getParent s (eid (heap s c)) = Some q" by simp_all
      then show ?thesis using False reg_lt [OF rc(1)] by (simp add: reg' e1 gp)
    qed
  qed
  have D: "inv_distinct s'"
    unfolding inv_distinct_def
  proof (intro allI impI)
    fix q assume q: "registered s' q"
    show "distinct (entries (heap s' q))"
    proof (cases "q = a")
      case True
      moreover have "parent \<noteq> a" using reg_lt [OF rpar] by simp
      ultimately show ?thesis by (simp add: e3)
    next
      case False
      then have rq: "registered s q" using q by (simp add: reg')
      have d: "distinct (entries (heap s q))" using inv_distinctD [OF inv rq] .
      have "a \<notin> set (entries (heap s q))"
        using inv_childrenD [OF inv rq, of a] reg_lt [of a] by blast
      then show ?thesis using d False by (auto simp: e3)
    qed
  qed
  have A: "alloc_inv s'"
    unfolding alloc_inv_def
  proof (intro conjI allI impI)
    fix j b assume "objects s' j = Some b"
    then show "b < nextAddr s'"
      using alloc_addr [OF al, of j b] by (auto simp: o n a split: if_splits)
  next
    fix m assume "nextId s' \<le> m"
    then show "objects s' (String m) = None"
      using alloc_id [OF al, of m] by (simp add: o n i)
  qed
  show ?thesis using K P C D A by (simp add: good_def store_inv_def)
qed

lemma createFolder_fields:
  assumes "objects s (case p of None \<Rightarrow> eid (heap s (root s)) | Some q \<Rightarrow> q) = Some parent"
    and "etype (heap s parent) = Folder" and "parent \<noteq> nextAddr s"
  shows "eid (heap (snd (createFolder nm p s)) x) =
           (if x = nextAddr s then String (nextId s) else eid (heap s x))"
    and "etype (heap (snd (createFolder nm p s)) x) =
           (if x = nextAddr s then Folder else etype (heap s x))"
    and "entries (heap (snd (createFolder nm p s)) x) =
           (if x = parent then entries (heap s parent) @ [nextAddr s]
            else if x = nextAddr s then [] else entries (heap s x))"
    and "objects (snd (createFolder nm p s)) = (objects s)(String (nextId s) \<mapsto> nextAddr s)"
    and "parents (snd (createFolder nm p s)) = (parents s)(String (nextId s) \<mapsto> Some parent)"
    and "nextAddr (snd (createFolder nm p s)) = Suc (nextAddr s)"
    and "nextId (snd (createFolder nm p s)) = Suc (nextId s)"
    and "fst (createFolder nm p s) = Inr (toJSON (snd (createFolder nm p s)) (nextAddr s))"
  using assms
  by (simp_all add: createFolder_def new_Folder_def new_Entry_def new_Date_def upd_def
      register_def add_def Let_def)

lemma createFile_fields:
  assumes "objects s (case p of None \<Rightarrow> eid (heap s (root s)) | Some q \<Rightarrow> q) = Some parent"
    and "etype (heap s parent) = Folder" and "parent \<noteq> nextAddr s"
  shows "eid (heap (snd (createFile nm p c s)) x) =
           (if x = nextAddr s then String (nextId s) else eid (heap s x))"
    and "etype (heap (snd (createFile nm p c s)) x) =
           (if x = nextAddr s then File else etype (heap s x))"
    and "entries (heap (snd (createFile nm p c s)) x) =
           (if x = parent then entries (heap s parent) @ [nextAddr s]
            else if x = nextAddr s then [] else entries (heap s x))"
    and "objects (snd (createFile nm p c s)) = (objects s)(String (nextId s) \<mapsto> nextAddr s)"
    and "parents (snd (createFile nm p c s)) = (parents s)(String (nextId s) \<mapsto> Some parent)"
    and "nextAddr (snd (createFile nm p c s)) = Suc (nextAddr s)"
    and "nextId (snd (createFile nm p c s)) = Suc (nextId s)"
    and "fst (createFile nm p c s) = Inr (toJSON (snd (createFile nm p c s)) (nextAddr s))"
  using assms
  by (simp_all add: createFile_def new_File_def new_Entry_def new_Date_def upd_def
      register_def add_def Let_def)

lemma createFolder_error:
  "objects s (case p of None \<Rightarrow> eid (heap s (root s)) | Some q \<Rightarrow> q) = None \<or>
   (\<exists>parent. objects s (case p of None \<Rightarrow> eid (heap s (root s)) | Some q \<Rightarrow> q) = Some parent \<and>
      etype (heap s parent) \<noteq> Folder) \<Longrightarrow> snd (createFolder nm p s) = s"
  by (auto simp: createFolder_def Let_def)

lemma createFile_error:
  "objects s (case p of None \<Rightarrow> eid (heap s (root s)) | Some q \<Rightarrow> q) = None \<or>
   (\<exists>parent. objects s (case p of None \<Rightarrow> eid (heap s (root s)) | Some q \<Rightarrow> q) = Some parent \<and>
      etype (heap s parent) \<noteq> Folder) \<Longrightarrow> snd (createFile nm p c s) = s"
  by (auto simp: createFile_def Let_def)

lemma good_createFolder:
  assumes g: "good s" shows "good (snd (createFolder nm p s))"
proof -
  let ?pid = "case p of None \<Rightarrow> eid (heap s (root s)) | Some q \<Rightarrow> q"
  show ?thesis
  proof (cases "objects s ?pid")
    case None
    then show ?thesis using g createFolder_error [of s p nm] by simp
  next
    case (Some parent)
    show ?thesis
    proof (cases "etype (heap s parent) = Folder")
      case False
      then show ?thesis using g Some createFolder_error [of s p nm] by simp
    next
      case True
      have ne: "parent \<noteq> nextAddr s"
        using alloc_addr [OF goodD(2) [OF g] Some] by simp
      note f = createFolder_fields [OF Some True ne, of nm]
      show ?thesis
        by (rule good_create [OF g Some True refl refl]) (simp_all add: f)
    qed
  qed
qed

lemma good_createFile:
  assumes g: "good s" shows "good (snd (createFile nm p c s))"
proof -
  let ?pid = "case p of None \<Rightarrow> eid (heap s (root s)) | Some q \<Rightarrow> q"
  show ?thesis
  proof (cases "objects s ?pid")
    case None
    then show ?thesis using g createFile_error [of s p nm c] by simp
  next
    case (Some parent)
    show ?thesis
    proof (cases "etype (heap s parent) = Folder")
      case False
      then show ?thesis using g Some createFile_error [of s p nm c] by simp
    next
      case True
      have ne: "parent \<noteq> nextAddr s"
        using alloc_addr [OF goodD(2) [OF g] Some] by simp
      note f = createFile_fields [OF Some True ne, of nm c]
      show ?thesis
        by (rule good_create [OF g Some True refl refl]) (simp_all add: f)
    qed
  qed
qed

lemma ObjectStore_fields:
  "eid (heap (ObjectStore n clk r) x) =
     (if x = 0 then (if truthy_string r then the r else String n) else [])"
  "etype (heap (ObjectStore n clk r) 0) = Folder"
  "entries (heap (ObjectStore n clk r) x) = []"
  "objects (ObjectStore n clk r) = [(if truthy_string r then the r else String n) \<mapsto> 0]"
  "parents (ObjectStore n clk r) = [(if truthy_string r then the r else String n) \<mapsto> None]"
  "nextAddr (ObjectStore n clk r) = 1"
  "nextId (ObjectStore n clk r) = Suc n"
  "root (ObjectStore n clk r) = 0"
  by (simp_all add: ObjectStore_def new_Folder_def new_Entry_def new_Date_def upd_def
      register_def Let_def)

lemma good_ObjectStore:
  assumes "root_id_ok n r" shows "good (ObjectStore n clk r)"
proof -
  let ?s = "ObjectStore n clk r"
  let ?i = "if truthy_string r then the r else String n"
  note f = ObjectStore_fields [of n clk r]
  have reg: "\<And>x. registered ?s x \<Longrightarrow> x = 0"
    by (auto simp: registered_def f split: if_splits)
  have gp: "\<And>j. getParent ?s j = None"
    by (simp add: getParent_def f)
  have fresh: "\<And>m. Suc n \<le> m \<Longrightarrow> ?i \<noteq> String m"
    using assms by (cases r) (auto simp: root_id_ok_def)
  have "inv_keys ?s" by (simp add: inv_keys_def f)
  moreover have "inv_parents ?s" by (simp add: inv_parents_def gp)
  moreover have "inv_children ?s" by (simp add: inv_children_def f(3))
  moreover have "inv_distinct ?s" by (simp add: inv_distinct_def f(3))
  moreover have "alloc_inv ?s"
    unfolding alloc_inv_def
  proof (intro conjI allI impI)
    fix j a assume "objects ?s j = Some a"
    then show "a < nextAddr ?s" by (simp add: f split: if_splits)
  next
    fix m assume "nextId ?s \<le> m"
    then have "?i \<noteq> String m" using fresh [of m] by (simp add: f)
    then show "objects ?s (String m) = None" unfolding f by (simp add: fun_upd_def)
  qed
  ultimately show ?thesis by (simp add: good_def store_inv_def)
qed

lemma String_0: "String 0 = ''0''"
  by (simp add: String_small digit_def)

lemma good_store0: "good store0"
  unfolding store0_def
  by (rule good_ObjectStore) (simp add: root_id_ok_def String_0 [symmetric])

lemma good_store2: "good store2"
  unfolding store2_def store1_def
  by (intro good_createFile good_createFolder good_store0)

lemma good_store3: "good store3"
  unfolding store3_def by (intro good_createFolder good_store2)

lemmas store3_eval = store3_def store2_eval

text \<open>
  On \<open>store3\<close>, moving the file \<open>''2''\<close> from the folder \<open>''1''\<close> to the folder
  \<open>''3''\<close>.
\<close>

theorem move_entries_lengths_witness:
  "store_inv store3 \<and>
   fst (updateFile ''2'' None None (Some ''3'') store3)
     = Inr (toJSON (snd (updateFile ''2'' None None (Some ''3'') store3)) 2) \<and>
   parent_id store3 ''2'' = Some ''1'' \<and>
   (\<exists>xs ys xs' ys'.
      folder_entries ''1'' store3 = Some xs \<and>
      folder_entries ''1'' (snd (updateFile ''2'' None None (Some ''3'') store3)) = Some xs' \<and>
      folder_entries ''3'' store3 = Some ys \<and>
      folder_entries ''3'' (snd (updateFile ''2'' None None (Some ''3'') store3)) = Some ys' \<and>
      Suc (length xs') = length xs \<and> length ys' = Suc (length ys) \<and>
      field ''id'' (last ys') = Some (JString ''2''))"
proof -
  have i: "store_inv store3" using good_store3 by (simp add: good_def)
  have r: "fst (updateFile ''2'' None None (Some ''3'') store3)
     = Inr (toJSON (snd (updateFile ''2'' None None (Some ''3'') store3)) 2)"
    by (simp add: store3_eval)
  have p: "parent_id store3 ''2'' = Some ''1''"
    by (simp add: parent_id_def store3_eval)
  from move_entries_lengths [OF i _ _ r p, of None None]
  have "\<exists>xs ys xs' ys'.
      folder_entries ''1'' store3 = Some xs \<and>
      folder_entries ''1'' (snd (updateFile ''2'' None None (Some ''3'') store3)) = Some xs' \<and>
      folder_entries ''3'' store3 = Some ys \<and>
      folder_entries ''3'' (snd (updateFile ''2'' None None (Some ''3'') store3)) = Some ys' \<and>
      Suc (length xs') = length xs \<and> length ys' = Suc (length ys) \<and>
      (\<forall>x\<in>set xs'. field ''id'' x \<noteq> Some (JString ''2'')) \<and>
      field ''id'' (last ys') = Some (JString ''2'')"
    by simp
  then obtain xs ys xs' ys' where
      "folder_entries ''1'' store3 = Some xs"
      "folder_entries ''1'' (snd (updateFile ''2'' None None (Some ''3'') store3)) = Some xs'"
      "folder_entries ''3'' store3 = Some ys"
      "folder_entries ''3'' (snd (updateFile ''2'' None None (Some ''3'') store3)) = Some ys'"
      "Suc (length xs') = length xs" "length ys' = Suc (length ys)"
      "field ''id'' (last ys') = Some (JString ''2'')"
    by (elim exE conjE)
  then have "\<exists>xs ys xs' ys'.
      folder_entries ''1'' store3 = Some xs \<and>
      folder_entries ''1'' (snd (updateFile ''2'' None None (Some ''3'') store3)) = Some xs' \<and>
      folder_entries ''3'' store3 = Some ys \<and>
      folder_entries ''3'' (snd (updateFile ''2'' None None (Some ''3'') store3)) = Some ys' \<and>
      Suc (length xs') = length xs \<and> length ys' = Suc (length ys) \<and>
      field ''id'' (last ys') = Some (JString ''2'')"
    by (intro exI conjI)
  with i r p show ?thesis by (intro conjI)
qed

section \<open>Deleting\<close>

text \<open>What a deletion can change, whatever the store is.\<close>

lemma survives_refl: "survives s s"
  by (simp add: survives_def)

lemma survives_trans: "survives s s1 \<Longrightarrow> survives s1 s2 \<Longrightarrow> survives s s2"
  unfolding survives_def
proof (intro allI)
  fix i assume a: "\<forall>i. objects s1 i = None \<and> parents s1 i = None \<or>
        objects s1 i = objects s i \<and> parents s1 i = parents s i"
    and b: "\<forall>i. objects s2 i = None \<and> parents s2 i = None \<or>
        objects s2 i = objects s1 i \<and> parents s2 i = parents s1 i"
  from a [rule_format, of i] b [rule_format, of i]
  show "objects s2 i = None \<and> parents s2 i = None \<or>
        objects s2 i = objects s i \<and> parents s2 i = parents s i"
    by auto
qed

lemma shrinks_refl: "shrinks s s"
  by (simp add: shrinks_def survives_refl)

lemma shrinks_trans: "shrinks s s1 \<Longrightarrow> shrinks s1 s2 \<Longrightarrow> shrinks s s2"
  unfolding shrinks_def using survives_trans [of s s1 s2] by auto

lemma shrinks_unregister: "shrinks s (snd (unregister a s))"
  by (simp add: shrinks_def survives_def)

lemma shrinks_deleteFile: "shrinks s (snd (deleteFile i s))"
  by (simp add: deleteFile_def shrinks_refl shrinks_unregister split: option.splits)

lemma shrinks_bind:
  assumes "shrinks s (snd r)" and "\<And>x. shrinks (snd r) (snd (f x (snd r)))"
  shows "shrinks s (snd (bind r f))"
proof (cases "fst r")
  case (Inl e)
  then show ?thesis using assms(1) by (simp add: bind_err)
next
  case (Inr x)
  then show ?thesis using shrinks_trans [OF assms(1) assms(2) [of x]] by (simp add: bind_ok)
qed

lemma shrinks_delete:
  "shrinks s (snd (deleteFolder d i s))"
  "shrinks s (snd (delete_entries d xs s))"
proof (induction d i s and d xs s rule: deleteFolder_delete_entries.induct)
  case (1 i s)
  show ?case by (simp add: shrinks_refl)
next
  case (2 d i s)
  show ?case
  proof (cases "objects s i")
    case None
    then show ?thesis by (simp add: shrinks_refl)
  next
    case (Some folder)
    show ?thesis
    proof (cases "etype (heap s folder) = Folder")
      case False
      then show ?thesis using Some by (simp add: shrinks_refl)
    next
      case True
      have "shrinks s (snd (bind (delete_entries d (entries (heap s folder)) s)
                 (\<lambda>u s1. unregister folder s1)))"
        by (rule shrinks_bind) (use 2 Some True in \<open>simp_all add: shrinks_unregister\<close>)
      then show ?thesis using Some True by simp
    qed
  qed
next
  case (3 d s)
  show ?case by (simp add: shrinks_refl)
next
  case (4 d x xs s)
  have "shrinks s (snd (bind (if etype (heap s x) = Folder then deleteFolder d (eid (heap s x)) s
           else deleteFile (eid (heap s x)) s) (\<lambda>u s1. delete_entries d xs s1)))"
  proof (rule shrinks_bind)
    show "shrinks s (snd (if etype (heap s x) = Folder then deleteFolder d (eid (heap s x)) s
           else deleteFile (eid (heap s x)) s))"
      using 4(1) by (simp add: shrinks_deleteFile)
  next
    fix u
    show "shrinks (snd (if etype (heap s x) = Folder then deleteFolder d (eid (heap s x)) s
           else deleteFile (eid (heap s x)) s))
        (snd (delete_entries d xs (snd (if etype (heap s x) = Folder then deleteFolder d (eid (heap s x)) s
           else deleteFile (eid (heap s x)) s))))"
      by (rule 4(2))
  qed
  then show ?case by simp
qed

lemma shrinksD:
  assumes "shrinks s s'"
  shows shrinks_eid: "eid (heap s' x) = eid (heap s x)"
    and shrinks_etype: "etype (heap s' x) = etype (heap s x)"
    and shrinks_entries: "set (entries (heap s' x)) \<subseteq> set (entries (heap s x))"
    and shrinks_survives: "survives s s'"
  using assms by (simp_all add: shrinks_def)

lemma survives_registered:
  assumes "shrinks s s'" and "registered s' x"
  shows "registered s x" and "parents s' (eid (heap s x)) = parents s (eid (heap s x))"
proof -
  have o: "objects s' (eid (heap s x)) = Some x"
    using assms(2) by (simp add: registered_def shrinks_eid [OF assms(1)])
  have "objects s' (eid (heap s x)) = None \<and> parents s' (eid (heap s x)) = None \<or>
        objects s' (eid (heap s x)) = objects s (eid (heap s x)) \<and>
        parents s' (eid (heap s x)) = parents s (eid (heap s x))"
    using shrinks_survives [OF assms(1)] by (simp add: survives_def)
  then have "objects s' (eid (heap s x)) = objects s (eid (heap s x)) \<and>
        parents s' (eid (heap s x)) = parents s (eid (heap s x))"
    using o by auto
  then show "registered s x" and "parents s' (eid (heap s x)) = parents s (eid (heap s x))"
    using o by (simp_all add: registered_def)
qed

lemma ranked_shrinks:
  assumes "ranked s rk b" and "shrinks s s'"
  shows "ranked s' rk b"
  unfolding ranked_def
proof (intro allI impI)
  fix p c assume p: "registered s' p" and b: "rk p < b"
    and c: "c \<in> set (entries (heap s' p))"
  have "registered s p" using survives_registered(1) [OF assms(2) p] .
  moreover have "c \<in> set (entries (heap s p))" using c shrinks_entries [OF assms(2), of p] by blast
  ultimately show "rk c < rk p" using assms(1) b by (simp add: ranked_def)
qed

text \<open>A registered file has no entries.\<close>

lemma registered_leaf:
  assumes inv: "store_inv s" and r: "registered s a" and f: "etype (heap s a) \<noteq> Folder"
  shows "entries (heap s a) = []"
proof (rule ccontr)
  assume "entries (heap s a) \<noteq> []"
  then obtain c where c: "c \<in> set (entries (heap s a))" by (cases "entries (heap s a)") auto
  have "getParent s (eid (heap s c)) = Some a" using inv_childrenD [OF inv r c] by simp
  then have "etype (heap s a) = Folder" using inv_parentsD [OF inv] by blast
  then show False using f by simp
qed

text \<open>Unregistering an object without entries.\<close>

lemma unregister_inv:
  assumes inv: "store_inv s" and r: "registered s a" and e: "entries (heap s a) = []"
  shows "store_inv (snd (unregister a s))"
    and "objects (snd (unregister a s)) (eid (heap s a)) = None"
    and "\<And>q. registered s q \<Longrightarrow> q \<noteq> a \<Longrightarrow>
           registered (snd (unregister a s)) q \<and>
           entries (heap (snd (unregister a s)) q) = filter (\<lambda>c. c \<noteq> a) (entries (heap s q))"
proof -
  let ?s = "snd (unregister a s)"
  let ?i = "eid (heap s a)"
  have reg': "\<And>x. registered ?s x = (registered s x \<and> x \<noteq> a)"
  proof -
    fix x show "registered ?s x = (registered s x \<and> x \<noteq> a)"
      using r registered_eq [OF inv _ r, of x] by (auto simp: registered_def)
  qed
  have gp': "\<And>j. getParent ?s j = (if j = ?i then None else getParent s j)"
    by (simp add: getParent_def)
  have ent: "\<And>q. registered s q \<Longrightarrow>
      entries (heap ?s q) = filter (\<lambda>c. c \<noteq> a) (entries (heap s q))"
  proof -
    fix q assume q: "registered s q"
    show "entries (heap ?s q) = filter (\<lambda>c. c \<noteq> a) (entries (heap s q))"
    proof (cases "getParent s ?i = Some q")
      case True
      then show ?thesis using filter_id_is_remove [OF inv q r] by simp
    next
      case False
      have "a \<notin> set (entries (heap s q))"
        using inv_childrenD [OF inv q, of a] False by blast
      then show ?thesis using False by (simp add: filter_absent)
    qed
  qed
  show o: "objects ?s ?i = None" by simp
  show "\<And>q. registered s q \<Longrightarrow> q \<noteq> a \<Longrightarrow>
           registered ?s q \<and> entries (heap ?s q) = filter (\<lambda>c. c \<noteq> a) (entries (heap s q))"
  proof -
    fix q assume "registered s q" "q \<noteq> a"
    then show "registered ?s q \<and>
        entries (heap ?s q) = filter (\<lambda>c. c \<noteq> a) (entries (heap s q))"
      using reg' [of q] ent [of q] by (intro conjI) (simp, assumption)
  qed
  have K: "inv_keys ?s"
    unfolding inv_keys_def using inv_keysD [OF inv] by (auto split: if_splits)
  have P: "inv_parents ?s"
    unfolding inv_parents_def
  proof (intro allI impI)
    fix j q assume jq: "getParent ?s j = Some q"
    then have j: "j \<noteq> ?i" and q: "getParent s j = Some q" by (simp_all add: gp' split: if_splits)
    from inv_parentsD [OF inv q] obtain b where
      b: "registered s q" "etype (heap s q) = Folder" "objects s j = Some b"
         "b \<in> set (entries (heap s q))" by blast
    have qa: "q \<noteq> a"
    proof
      assume "q = a" then show False using b(4) e by simp
    qed
    have ba: "b \<noteq> a" using inv_keysD [OF inv b(3)] j by auto
    have "b \<in> set (entries (heap ?s q))"
      by (subst ent [OF b(1)]) (use b(4) ba in simp)
    then show "registered ?s q \<and> etype (heap ?s q) = Folder \<and>
          (\<exists>b. objects ?s j = Some b \<and> b \<in> set (entries (heap ?s q)))"
      using b(1,2,3) qa j by (simp add: reg')
  qed
  have C: "inv_children ?s"
    unfolding inv_children_def
  proof (intro allI impI)
    fix q c assume q: "registered ?s q" and c: "c \<in> set (entries (heap ?s q))"
    have rq: "registered s q" and qa: "q \<noteq> a" using q by (simp_all add: reg')
    have "c \<in> set (filter (\<lambda>c. c \<noteq> a) (entries (heap s q)))"
      using c by (simp only: ent [OF rq])
    then have c': "c \<in> set (entries (heap s q))" and ca: "c \<noteq> a"
      by simp_all
    from inv_childrenD [OF inv rq c'] have
      rc: "registered s c" "getParent s (eid (heap s c)) = Some q" by simp_all
    have "eid (heap s c) \<noteq> ?i" using registered_eq [OF inv rc(1) r] ca by blast
    then show "registered ?s c \<and> getParent ?s (eid (heap ?s c)) = Some q"
      using rc ca by (simp add: reg' gp')
  qed
  have D: "inv_distinct ?s"
    unfolding inv_distinct_def
  proof (intro allI impI)
    fix q assume q: "registered ?s q"
    have rq: "registered s q" using q by (simp add: reg')
    show "distinct (entries (heap ?s q))"
      by (subst ent [OF rq]) (use inv_distinctD [OF inv rq] in simp)
  qed
  show "store_inv ?s" using K P C D by (simp add: store_inv_def)
qed

lemma unregister_removed:
  assumes inv: "store_inv s" and r: "registered s a" and e: "entries (heap s a) = []"
  shows "removed rk a s (snd (unregister a s))"
  unfolding removed_def
proof (intro conjI allI impI)
  show "objects (snd (unregister a s)) (eid (heap s a)) = None"
    by (rule unregister_inv(2) [OF inv r e])
next
  fix q assume q: "registered s q" "rk a < rk q"
  then have "q \<noteq> a" by auto
  from unregister_inv(3) [OF inv r e q(1) this]
  show "registered (snd (unregister a s)) q"
    and "entries (heap (snd (unregister a s)) q) = filter (\<lambda>c. c \<noteq> a) (entries (heap s q))"
    by (rule conjunct1, rule conjunct2)
qed

text \<open>Deleting one element of the \<open>#entries\<close> of a registered folder, then all of them.\<close>

lemma delete_child:
  assumes IH: "\<forall>s x. store_inv s \<longrightarrow> ranked s rk b \<longrightarrow> registered s x \<longrightarrow> rk x < b \<longrightarrow>
                 etype (heap s x) = Folder \<longrightarrow> delete_ok rk d x s"
    and inv: "store_inv s" and rk: "ranked s rk b" and a: "registered s a"
    and ab: "rk a < b" and x: "x \<in> set (entries (heap s a))"
    and r1_def: "r1 = (if etype (heap s x) = Folder then deleteFolder d (eid (heap s x)) s
                  else deleteFile (eid (heap s x)) s)"
  shows "store_inv (snd r1)"
    and "rk x < d \<Longrightarrow> fst r1 = Inr ()"
    and "fst r1 = Inr () \<Longrightarrow> removed rk x s (snd r1)"
proof -
  have rx: "registered s x" and px: "getParent s (eid (heap s x)) = Some a"
    using inv_childrenD [OF inv a x] by simp_all
  have "rk x < rk a" using rk a ab x by (simp add: ranked_def)
  then have xb: "rk x < b" using ab by simp
  have "store_inv (snd r1) \<and> (rk x < d \<longrightarrow> fst r1 = Inr ()) \<and>
        (fst r1 = Inr () \<longrightarrow> removed rk x s (snd r1))"
  proof (cases "etype (heap s x) = Folder")
    case True
    then have r1: "r1 = deleteFolder d (eid (heap s x)) s" by (simp add: r1_def)
    from IH inv rk rx xb True have "delete_ok rk d x s" by blast
    then show ?thesis
      unfolding r1 delete_ok_def Let_def using px by simp
  next
    case False
    have ox: "objects s (eid (heap s x)) = Some x" using rx by (simp add: registered_def)
    have fx: "etype (heap s x) = File" using False by (cases "etype (heap s x)") simp_all
    have r1: "r1 = unregister x s" using False ox fx by (simp add: r1_def deleteFile_def)
    have e: "entries (heap s x) = []" by (rule registered_leaf [OF inv rx False])
    have "fst (unregister x s) = Inr ()" using px by (simp add: unregister_result)
    then show ?thesis
      unfolding r1 using unregister_inv(1) [OF inv rx e] unregister_removed [OF inv rx e]
      by simp
  qed
  then show "store_inv (snd r1)"
    and "rk x < d \<Longrightarrow> fst r1 = Inr ()"
    and "fst r1 = Inr () \<Longrightarrow> removed rk x s (snd r1)"
    by simp_all
qed

lemma filter_filter_notin:
  "filter (\<lambda>c. c \<notin> set xs) (filter (\<lambda>c. c \<noteq> x) ys) = filter (\<lambda>c. c \<notin> set (x # xs)) ys"
  by (induction ys) auto

lemma delete_entries_ok:
  assumes IH: "\<forall>s x. store_inv s \<longrightarrow> ranked s rk b \<longrightarrow> registered s x \<longrightarrow> rk x < b \<longrightarrow>
                 etype (heap s x) = Folder \<longrightarrow> delete_ok rk d x s"
  shows "store_inv s \<Longrightarrow> ranked s rk b \<Longrightarrow> registered s a \<Longrightarrow> rk a < b \<Longrightarrow>
         set xs \<subseteq> set (entries (heap s a)) \<Longrightarrow> distinct xs \<Longrightarrow>
         store_inv (snd (delete_entries d xs s)) \<and>
         (rk a \<le> d \<longrightarrow> fst (delete_entries d xs s) = Inr ()) \<and>
         (fst (delete_entries d xs s) = Inr () \<longrightarrow> emptied rk a xs s (snd (delete_entries d xs s)))"
proof (induction xs arbitrary: s)
  case Nil
  then show ?case by (simp add: emptied_def)
next
  case (Cons x xs)
  note inv = Cons.prems(1) and rk = Cons.prems(2) and a = Cons.prems(3)
    and ab = Cons.prems(4)
  have x: "x \<in> set (entries (heap s a))" using Cons.prems(5) by simp
  define r1 where "r1 = (if etype (heap s x) = Folder then deleteFolder d (eid (heap s x)) s
                  else deleteFile (eid (heap s x)) s)"
  note c = delete_child [OF IH inv rk a ab x r1_def]
  have de: "delete_entries d (x # xs) s = bind r1 (\<lambda>u s1. delete_entries d xs s1)"
    by (simp add: r1_def)
  have rkx: "rk x < rk a" using rk a ab x by (simp add: ranked_def)
  show ?case
  proof (cases "fst r1")
    case (Inl e)
    have res: "delete_entries d (x # xs) s = (Inl e, snd r1)"
      unfolding de using Inl by (rule bind_err)
    have "\<not> rk a \<le> d"
    proof
      assume "rk a \<le> d"
      then have "rk x < d" using rkx by simp
      then have "fst r1 = Inr ()" by (rule c(2))
      then show False using Inl by simp
    qed
    then show ?thesis unfolding res using c(1) by simp
  next
    case (Inr u)
    then have ok: "fst r1 = Inr ()" by simp
    let ?s1 = "snd r1"
    have de': "delete_entries d (x # xs) s = delete_entries d xs ?s1"
      unfolding de by (rule bind_ok [OF ok])
    have rem: "removed rk x s ?s1" by (rule c(3) [OF ok])
    have sh: "shrinks s ?s1"
      unfolding r1_def by (simp add: shrinks_delete(1) shrinks_deleteFile)
    have a1: "registered ?s1 a"
      and ea1: "entries (heap ?s1 a) = filter (\<lambda>c. c \<noteq> x) (entries (heap s a))"
      using rem a rkx by (simp_all add: removed_def)
    have sub: "set xs \<subseteq> set (entries (heap ?s1 a))"
      using Cons.prems(5,6) by (auto simp: ea1)
    have dis: "distinct xs" using Cons.prems(6) by simp
    note ih = Cons.IH [OF c(1) ranked_shrinks [OF rk sh] a1 ab sub dis]
    have post: "emptied rk a (x # xs) s (snd (delete_entries d xs ?s1))"
      if e1: "emptied rk a xs ?s1 (snd (delete_entries d xs ?s1))"
      unfolding emptied_def
    proof (intro conjI allI impI)
      show "registered (snd (delete_entries d xs ?s1)) a" using e1 by (simp add: emptied_def)
      show "entries (heap (snd (delete_entries d xs ?s1)) a)
          = filter (\<lambda>c. c \<notin> set (x # xs)) (entries (heap s a))"
        using e1 by (simp only: emptied_def ea1 filter_filter_notin)
    next
      fix q assume q: "registered s q" "rk a < rk q"
      have q1: "registered ?s1 q"
        and eq1: "entries (heap ?s1 q) = filter (\<lambda>c. c \<noteq> x) (entries (heap s q))"
        using rem q rkx by (simp_all add: removed_def)
      have qa: "q \<noteq> a" using q(2) by auto
      have "x \<notin> set (entries (heap s q))"
      proof
        assume "x \<in> set (entries (heap s q))"
        then have "getParent s (eid (heap s x)) = Some q"
          using inv_childrenD [OF inv q(1)] by simp
        moreover have "getParent s (eid (heap s x)) = Some a"
          using inv_childrenD [OF inv a x] by simp
        ultimately show False using qa by simp
      qed
      then have eq1': "entries (heap ?s1 q) = entries (heap s q)"
        using eq1 by (simp add: filter_absent)
      show "registered (snd (delete_entries d xs ?s1)) q"
        using e1 q1 q(2) by (simp add: emptied_def)
      show "entries (heap (snd (delete_entries d xs ?s1)) q) = entries (heap s q)"
        using e1 q1 q(2) eq1' by (simp add: emptied_def)
    qed
    from ih have i1: "store_inv (snd (delete_entries d xs ?s1))"
      and i2: "rk a \<le> d \<longrightarrow> fst (delete_entries d xs ?s1) = Inr ()"
      and i3: "fst (delete_entries d xs ?s1) = Inr () \<longrightarrow>
               emptied rk a xs ?s1 (snd (delete_entries d xs ?s1))"
      by simp_all
    show ?thesis unfolding de'
    proof (intro conjI impI)
      show "store_inv (snd (delete_entries d xs ?s1))" by (rule i1)
      show "fst (delete_entries d xs ?s1) = Inr ()" if "rk a \<le> d" using i2 that by simp
      show "emptied rk a (x # xs) s (snd (delete_entries d xs ?s1))"
        if "fst (delete_entries d xs ?s1) = Inr ()" using post i3 that by simp
    qed
  qed
qed

text \<open>\<open>deleteFolder\<close> on a registered folder, by induction on the depth of calls.\<close>

lemma filter_notin_self: "filter (\<lambda>c. c \<notin> set xs) xs = []"
  by (induction xs) (auto simp: filter_empty_conv)

lemma getParent_cong: "parents s' i = parents s i \<Longrightarrow> getParent s' i = getParent s i"
  by (simp add: getParent_def)

lemma deleteFolder_step:
  assumes IH: "\<forall>s x. store_inv s \<longrightarrow> ranked s rk b \<longrightarrow> registered s x \<longrightarrow> rk x < b \<longrightarrow>
                 etype (heap s x) = Folder \<longrightarrow> delete_ok rk d x s"
    and inv: "store_inv s" and rk: "ranked s rk b" and a: "registered s a"
    and ab: "rk a < b" and f: "etype (heap s a) = Folder"
  shows "delete_ok rk (Suc d) a s"
proof -
  let ?i = "eid (heap s a)"
  let ?xs = "entries (heap s a)"
  define l where "l = delete_entries d ?xs s"
  have oa: "objects s ?i = Some a" using a by (simp add: registered_def)
  have df: "deleteFolder (Suc d) ?i s = bind l (\<lambda>u s1. unregister a s1)"
    using oa f by (simp add: l_def)
  have lp: "store_inv (snd l) \<and> (rk a \<le> d \<longrightarrow> fst l = Inr ()) \<and>
            (fst l = Inr () \<longrightarrow> emptied rk a ?xs s (snd l))"
    unfolding l_def
    by (rule delete_entries_ok [OF IH inv rk a ab subset_refl inv_distinctD [OF inv a]])
  have sh: "shrinks s (snd l)" unfolding l_def by (rule shrinks_delete(2))
  show ?thesis
  proof (cases "fst l")
    case (Inl e)
    have res: "deleteFolder (Suc d) ?i s = (Inl e, snd l)"
      unfolding df using Inl by (rule bind_err)
    have "\<not> rk a < Suc d"
    proof
      assume "rk a < Suc d"
      then have "fst l = Inr ()" using lp by simp
      then show False using Inl by simp
    qed
    then show ?thesis unfolding delete_ok_def Let_def res using lp by simp
  next
    case (Inr u)
    then have ok: "fst l = Inr ()" by simp
    let ?s1 = "snd l"
    let ?s2 = "snd (unregister a ?s1)"
    have res: "deleteFolder (Suc d) ?i s = unregister a ?s1"
      unfolding df by (rule bind_ok [OF ok])
    have em: "emptied rk a ?xs s ?s1" using lp ok by simp
    have inv1: "store_inv ?s1" using lp by simp
    have a1: "registered ?s1 a" using em by (simp add: emptied_def)
    have e1: "entries (heap ?s1 a) = []" using em by (simp add: emptied_def filter_notin_self)
    have id1: "eid (heap ?s1 a) = ?i" by (rule shrinks_eid [OF sh])
    have gp1: "getParent ?s1 ?i = getParent s ?i"
      by (rule getParent_cong) (rule survives_registered(2) [OF sh a1])
    have inv2: "store_inv ?s2" by (rule unregister_inv(1) [OF inv1 a1 e1])
    have gone: "objects ?s2 ?i = None" using unregister_inv(2) [OF inv1 a1 e1] id1 by simp
    have fst2: "fst (unregister a ?s1) =
        (case getParent s ?i of None \<Rightarrow> Inl Undefined_receiver | Some p \<Rightarrow> Inr ())"
      by (simp only: unregister_result id1 gp1)
    have rem: "removed rk a s ?s2"
      unfolding removed_def
    proof (intro conjI allI impI)
      show "objects ?s2 ?i = None" by (rule gone)
    next
      fix q assume q: "registered s q" "rk a < rk q"
      have q1: "registered ?s1 q" and eq1: "entries (heap ?s1 q) = entries (heap s q)"
        using em q by (simp_all add: emptied_def)
      have qa: "q \<noteq> a" using q(2) by auto
      from unregister_inv(3) [OF inv1 a1 e1 q1 qa]
      show "registered ?s2 q"
        and "entries (heap ?s2 q) = filter (\<lambda>c. c \<noteq> a) (entries (heap s q))"
        by (simp_all only: eq1)
    qed
    show ?thesis unfolding delete_ok_def Let_def res using inv2 gone fst2 rem by simp
  qed
qed

lemma deleteFolder_ok:
  "\<forall>s a. store_inv s \<longrightarrow> ranked s rk b \<longrightarrow> registered s a \<longrightarrow> rk a < b \<longrightarrow>
         etype (heap s a) = Folder \<longrightarrow> delete_ok rk d a s"
proof (induction d)
  case 0
  show ?case by (simp add: delete_ok_def)
next
  case (Suc d)
  show ?case
    by (intro allI impI) (rule deleteFolder_step [OF Suc])
qed

text \<open>
  An id whose chain of parents leads to a removed id cannot stay registered in a
  consistent registry.
\<close>

lemma descendants_gone:
  assumes sh: "shrinks s s'" and inv': "store_inv s'" and gone: "objects s' i = None"
    and d: "(j, i) \<in> (parent_rel s)\<^sup>*"
  shows "objects s' j = None"
  using d
proof (induction rule: converse_rtrancl_induct)
  case base
  show ?case by (rule gone)
next
  case (step j k)
  from step(1) obtain p where p: "getParent s j = Some p" "eid (heap s p) = k"
    by (auto simp: parent_rel_def parent_id_def)
  show ?case
  proof (rule ccontr)
    assume "objects s' j \<noteq> None"
    moreover have "objects s' j = None \<and> parents s' j = None \<or>
        objects s' j = objects s j \<and> parents s' j = parents s j"
      using shrinks_survives [OF sh] by (simp add: survives_def)
    ultimately have "parents s' j = parents s j" by auto
    then have "getParent s' j = Some p" using p(1) by (simp add: getParent_def)
    then have "registered s' p" using inv_parentsD [OF inv'] by blast
    then have "objects s' k = Some p"
      using p(2) shrinks_eid [OF sh, of p] by (simp add: registered_def)
    then show False using step(3) by simp
  qed
qed

text \<open>
  On a folder that is its own entry, \<open>deleteFolder\<close> calls itself until the stack is
  exhausted, whatever its depth, and leaves the store as it was.
\<close>

lemma store_cycle_facts:
  "objects store_cycle ''1'' = Some 1" "etype (heap store_cycle 1) = Folder"
  "entries (heap store_cycle 1) = [1]" "eid (heap store_cycle 1) = ''1''"
  by (simp_all add: store_cycle_def store2_eval)

lemma deleteFolder_store_cycle:
  "deleteFolder d ''1'' store_cycle = (Inl Stack_overflow, store_cycle)"
proof (induction d)
  case 0
  show ?case by simp
next
  case (Suc d)
  have "delete_entries d [1] store_cycle = (Inl Stack_overflow, store_cycle)"
    using Suc by (simp add: store_cycle_facts del: One_nat_def)
  then show ?case by (simp add: store_cycle_facts del: One_nat_def)
qed

theorem deleteFolder_on_cycle:
  "map_sum id (field ''parent_id'') (fst (updateFolder ''1'' None (Some ''1'') store1))
     = Inr (Some (JString ''1'')) \<and>
   fst (deleteFolder 1000 ''1'' store_cycle) = Inl Stack_overflow \<and>
   objects (snd (deleteFolder 1000 ''1'' store_cycle)) ''1'' = Some 1 \<and>
   map_sum id (field ''id'') (fst (getFolder ''1'' (snd (deleteFolder 1000 ''1'' store_cycle))))
     = Inr (Some (JString ''1''))"
proof -
  have "map_sum id (field ''parent_id'') (fst (updateFolder ''1'' None (Some ''1'') store1))
     = Inr (Some (JString ''1''))"
    by (simp add: store2_eval)
  moreover have "map_sum id (field ''id'') (fst (getFolder ''1'' store_cycle))
     = Inr (Some (JString ''1''))"
    by (simp add: store_cycle_def store2_eval)
  ultimately show ?thesis
    by (simp add: deleteFolder_store_cycle store_cycle_facts del: One_nat_def)
qed

text \<open>
  C4, amended. Let the registry be consistent, \<open>i\<close> the id of a folder, and \<open>d\<close> the
  number of nested calls the stack has room for. Let the objects be ranked so that the
  folder has a rank below \<open>d\<close> and, among the objects of rank below \<open>d\<close>, every entry
  has a smaller rank than the folder that lists it: there is no cycle below the folder
  and the subtree is no deeper than the stack allows; cycles elsewhere in the store do
  not matter. Then \<open>deleteFolder(i)\<close> runs to its end: it returns when the folder has a
  parent, and for the root it throws in the final \<open>#unregister\<close>, after the removal. In
  the store it leaves, \<open>getFile\<close> and \<open>getFolder\<close> fail with "not found" for \<open>i\<close> and
  for every id \<open>j\<close> whose chain of parents led to \<open>i\<close>.
\<close>

theorem deleteFolder_removes_descendants:
  assumes "store_inv s" and "ranked s rk d"
    and "objects s i = Some a" and "etype (heap s a) = Folder" and "rk a < d"
    and "(j, i) \<in> (parent_rel s)\<^sup>*"
  shows "fst (deleteFolder d i s) =
           (case getParent s i of None \<Rightarrow> Inl Undefined_receiver | Some p \<Rightarrow> Inr ()) \<and>
         fst (getFile j (snd (deleteFolder d i s))) = Inl File_not_found \<and>
         fst (getFolder j (snd (deleteFolder d i s))) = Inl Folder_not_found"
proof -
  let ?s = "snd (deleteFolder d i s)"
  have ia: "eid (heap s a) = i" using inv_keysD [OF assms(1,3)] .
  have ra: "registered s a" using registeredI [OF assms(1,3)] .
  have "delete_ok rk d a s"
    using deleteFolder_ok [of rk d d] assms(1,2,4,5) ra by blast
  then have inv': "store_inv ?s" and gone: "objects ?s i = None"
    and res: "fst (deleteFolder d i s) =
           (case getParent s i of None \<Rightarrow> Inl Undefined_receiver | Some p \<Rightarrow> Inr ())"
    using assms(5) by (simp_all add: delete_ok_def Let_def ia)
  have sh: "shrinks s ?s" by (rule shrinks_delete(1))
  have "objects ?s j = None" by (rule descendants_gone [OF sh inv' gone assms(6)])
  then show ?thesis using res by (simp add: getFile_def getFolder_def)
qed

section \<open>Ids are unique when the root id does not collide\<close>

lemma ids_inv_frame:
  assumes "\<And>x. eid (heap s' x) = eid (heap s x)"
    and "nextAddr s' = nextAddr s" and "nextId s' = nextId s"
  shows "ids_inv s' = ids_inv s"
  using assms by (simp add: ids_inv_def unique_ids_def inj_on_def)

lemma ids_inv_new:
  assumes i: "ids_inv s"
    and e: "\<And>x. eid (heap s' x) = (if x = nextAddr s then String (nextId s) else eid (heap s x))"
    and n: "nextAddr s' = Suc (nextAddr s)" "nextId s' = Suc (nextId s)"
  shows "ids_inv s'"
proof -
  have u: "inj_on (\<lambda>a. eid (heap s a)) {a. a < nextAddr s}"
    and f: "\<And>a m. a < nextAddr s \<Longrightarrow> nextId s \<le> m \<Longrightarrow> eid (heap s a) \<noteq> String m"
    using i by (simp_all add: ids_inv_def unique_ids_def)
  have "inj_on (\<lambda>a. eid (heap s' a)) {a. a < nextAddr s'}"
  proof (rule inj_onI)
    fix x y assume x: "x \<in> {a. a < nextAddr s'}" and y: "y \<in> {a. a < nextAddr s'}"
      and xy: "eid (heap s' x) = eid (heap s' y)"
    show "x = y"
    proof (cases "x = nextAddr s")
      case True
      show ?thesis
      proof (cases "y = nextAddr s")
        case T2: True then show ?thesis using True by simp
      next
        case False
        then have "y < nextAddr s" using y n(1) by simp
        then have "eid (heap s y) \<noteq> String (nextId s)" using f [of y "nextId s"] by simp
        then show ?thesis using xy True False by (simp add: e)
      qed
    next
      case False
      then have xl: "x < nextAddr s" using x n(1) by simp
      show ?thesis
      proof (cases "y = nextAddr s")
        case True
        have "eid (heap s x) \<noteq> String (nextId s)" using f [OF xl, of "nextId s"] by simp
        then show ?thesis using xy True False by (simp add: e)
      next
        case F2: False
        then have yl: "y < nextAddr s" using y n(1) by simp
        have "eid (heap s x) = eid (heap s y)" using xy False F2 by (simp add: e)
        then show ?thesis using inj_onD [OF u] xl yl by simp
      qed
    qed
  qed
  moreover have "\<forall>a m. a < nextAddr s' \<longrightarrow> nextId s' \<le> m \<longrightarrow> eid (heap s' a) \<noteq> String m"
  proof (intro allI impI)
    fix a m assume a: "a < nextAddr s'" and m: "nextId s' \<le> m"
    show "eid (heap s' a) \<noteq> String m"
    proof (cases "a = nextAddr s")
      case True
      then show ?thesis using m n(2) by (simp add: e)
    next
      case False
      then have "a < nextAddr s" using a n(1) by simp
      then show ?thesis using f [of a m] m n(2) False by (simp add: e)
    qed
  qed
  ultimately show ?thesis by (simp add: ids_inv_def unique_ids_def)
qed

lemma createFile_ids:
  "snd (createFile nm p c s) = s \<or>
   ((\<forall>x. eid (heap (snd (createFile nm p c s)) x) =
         (if x = nextAddr s then String (nextId s) else eid (heap s x))) \<and>
    nextAddr (snd (createFile nm p c s)) = Suc (nextAddr s) \<and>
    nextId (snd (createFile nm p c s)) = Suc (nextId s))"
  by (simp add: createFile_def new_File_def new_Entry_def new_Date_def upd_def Let_def
      split: option.splits)

lemma createFolder_ids:
  "snd (createFolder nm p s) = s \<or>
   ((\<forall>x. eid (heap (snd (createFolder nm p s)) x) =
         (if x = nextAddr s then String (nextId s) else eid (heap s x))) \<and>
    nextAddr (snd (createFolder nm p s)) = Suc (nextAddr s) \<and>
    nextId (snd (createFolder nm p s)) = Suc (nextId s))"
  by (simp add: createFolder_def new_Folder_def new_Entry_def new_Date_def upd_def Let_def
      split: option.splits)

lemma updateFile_ids:
  "eid (heap (snd (updateFile i nm c p s)) x) = eid (heap s x)"
  "nextAddr (snd (updateFile i nm c p s)) = nextAddr s"
  "nextId (snd (updateFile i nm c p s)) = nextId s"
  by (simp_all add: updateFile_def Let_def snd_bind split: option.splits sum.splits)

lemma updateFolder_ids:
  "eid (heap (snd (updateFolder i nm p s)) x) = eid (heap s x)"
  "nextAddr (snd (updateFolder i nm p s)) = nextAddr s"
  "nextId (snd (updateFolder i nm p s)) = nextId s"
  by (simp_all add: updateFolder_def Let_def snd_bind split: option.splits sum.splits)

lemma ids_inv_shrinks: "shrinks s s' \<Longrightarrow> ids_inv s' = ids_inv s"
  by (rule ids_inv_frame) (simp_all add: shrinks_def)

lemma ids_inv_step: "ids_inv s \<Longrightarrow> ids_inv (step c s)"
proof (cases c)
  case (CreateFile nm p ct)
  assume i: "ids_inv s"
  from createFile_ids [of nm p ct s] show ?thesis
  proof
    assume "snd (createFile nm p ct s) = s"
    then show ?thesis using i CreateFile by simp
  next
    assume "(\<forall>x. eid (heap (snd (createFile nm p ct s)) x) =
         (if x = nextAddr s then String (nextId s) else eid (heap s x))) \<and>
      nextAddr (snd (createFile nm p ct s)) = Suc (nextAddr s) \<and>
      nextId (snd (createFile nm p ct s)) = Suc (nextId s)"
    then have "ids_inv (snd (createFile nm p ct s))"
      using ids_inv_new [OF i, of "snd (createFile nm p ct s)"] by simp
    then show ?thesis using CreateFile by simp
  qed
next
  case (CreateFolder nm p)
  assume i: "ids_inv s"
  from createFolder_ids [of nm p s] show ?thesis
  proof
    assume "snd (createFolder nm p s) = s"
    then show ?thesis using i CreateFolder by simp
  next
    assume "(\<forall>x. eid (heap (snd (createFolder nm p s)) x) =
         (if x = nextAddr s then String (nextId s) else eid (heap s x))) \<and>
      nextAddr (snd (createFolder nm p s)) = Suc (nextAddr s) \<and>
      nextId (snd (createFolder nm p s)) = Suc (nextId s)"
    then have "ids_inv (snd (createFolder nm p s))"
      using ids_inv_new [OF i, of "snd (createFolder nm p s)"] by simp
    then show ?thesis using CreateFolder by simp
  qed
next
  case (GetFile i)
  assume "ids_inv s" then show ?thesis
    using GetFile by (simp add: getFile_def split: option.splits)
next
  case (GetFileContent i)
  assume "ids_inv s" then show ?thesis
    using GetFileContent by (simp add: getFileContent_def split: option.splits)
next
  case (GetFolder i)
  assume "ids_inv s" then show ?thesis
    using GetFolder by (simp add: getFolder_def split: option.splits)
next
  case (UpdateFile i nm ct p)
  assume "ids_inv s" then show ?thesis
    using UpdateFile ids_inv_frame [of "snd (updateFile i nm ct p s)" s]
    by (simp add: updateFile_ids)
next
  case (UpdateFolder i nm p)
  assume "ids_inv s" then show ?thesis
    using UpdateFolder ids_inv_frame [of "snd (updateFolder i nm p s)" s]
    by (simp add: updateFolder_ids)
next
  case (DeleteFile i)
  assume "ids_inv s" then show ?thesis
    using DeleteFile ids_inv_shrinks [OF shrinks_deleteFile, of i s] by simp
next
  case (DeleteFolder d i)
  assume "ids_inv s" then show ?thesis
    using DeleteFolder ids_inv_shrinks [OF shrinks_delete(1), of d i s] by simp
qed

lemma ids_inv_run: "ids_inv s \<Longrightarrow> ids_inv (run cs s)"
  by (induction cs arbitrary: s) (simp_all add: ids_inv_step)

lemma ids_inv_ObjectStore:
  assumes "root_id_ok n r" shows "ids_inv (ObjectStore n clk r)"
proof -
  have fresh: "\<And>m. Suc n \<le> m \<Longrightarrow> (if truthy_string r then the r else String n) \<noteq> String m"
    using assms by (cases r) (auto simp: root_id_ok_def)
  show ?thesis
    unfolding ids_inv_def unique_ids_def using fresh
    by (simp add: ObjectStore_fields inj_on_def)
qed

text \<open>
  C6, amended. When the root id is not the decimal form of a number the counter has yet
  to issue, then after every sequence of calls no two objects ever constructed in the
  store (deleted ones included) have the same id, and no id the counter has yet to issue
  is the id of any of them.
\<close>

theorem ids_unique_in_every_run:
  assumes "root_id_ok n r"
  shows "unique_ids (run cs (ObjectStore n clk r)) \<and>
         (\<forall>a m. a < nextAddr (run cs (ObjectStore n clk r)) \<longrightarrow>
                nextId (run cs (ObjectStore n clk r)) \<le> m \<longrightarrow>
                eid (heap (run cs (ObjectStore n clk r)) a) \<noteq> String m)"
  using ids_inv_run [OF ids_inv_ObjectStore [OF assms], of cs clk]
  by (simp add: ids_inv_def)

theorem ids_unique_in_every_run_witness:
  "root_id_ok 0 (Some ''0'') \<and>
   unique_ids (run [CreateFile ''a'' None None, DeleteFile ''1'', CreateFile ''b'' None None]
     (ObjectStore 0 (\<lambda>k. k) (Some ''0''))) \<and>
   eid (heap (run [CreateFile ''a'' None None, DeleteFile ''1'', CreateFile ''b'' None None]
     (ObjectStore 0 (\<lambda>k. k) (Some ''0''))) 2) = ''2''"
proof -
  have r: "root_id_ok 0 (Some ''0'')"
    by (simp add: root_id_ok_def String_0 [symmetric])
  from ids_unique_in_every_run [OF r,
      of "[CreateFile ''a'' None None, DeleteFile ''1'', CreateFile ''b'' None None]" "\<lambda>k. k"]
  show ?thesis using r by (simp add: eval_defs)
qed

section \<open>Every call keeps the registry consistent\<close>

lemma move_cases:
  "snd (move a pid s) = s \<or>
   (\<exists>old new. getParent s (eid (heap s a)) = Some old \<and> objects s pid = Some new \<and>
      etype (heap s new) = Folder \<and> fst (move a pid s) = Inr () \<and>
      snd (move a pid s) = register a (Some new) (remove old a s))"
  by (auto simp: move_def split: option.splits)

lemma move_parents:
  assumes "getParent s (eid (heap s a)) = Some old" "objects s pid = Some new"
    "etype (heap s new) = Folder"
  shows "parents (snd (move a pid s)) = (parents s)(eid (heap s a) \<mapsto> Some new)"
  using assms by (simp add: move_def)

lemma store_inv_move:
  assumes inv: "store_inv s" and a: "registered s a"
  shows "store_inv (snd (move a pid s))"
proof -
  let ?s = "snd (move a pid s)"
  let ?i = "eid (heap s a)"
  from move_cases [of a pid s] show ?thesis
  proof
    assume "?s = s" then show ?thesis using inv by simp
  next
    assume "\<exists>old new. getParent s ?i = Some old \<and> objects s pid = Some new \<and>
      etype (heap s new) = Folder \<and> fst (move a pid s) = Inr () \<and>
      ?s = register a (Some new) (remove old a s)"
    then obtain old new where old: "getParent s ?i = Some old"
      and new: "objects s pid = Some new" and fnew: "etype (heap s new) = Folder"
      by (elim exE conjE)
    have rnew: "registered s new" by (rule registeredI [OF inv new])
    have rold: "registered s old" using inv_parentsD [OF inv old] by simp
    have oa: "objects s ?i = Some a" using a by (simp add: registered_def)
    have ent: "\<And>x. entries (heap ?s x) =
          (if x = new then filter (\<lambda>y. y \<noteq> a) (entries (heap s x)) @ [a]
           else if x = old then filter (\<lambda>y. y \<noteq> a) (entries (heap s x))
           else entries (heap s x))"
      by (rule move_entries(2) [OF inv a old new fnew])
    have obj: "objects ?s = objects s" by (rule move_objects [OF inv a])
    have par: "parents ?s = (parents s)(?i \<mapsto> Some new)"
      by (rule move_parents [OF old new fnew])
    have reg': "\<And>x. registered ?s x = registered s x"
      by (simp add: registered_def obj)
    have gp': "\<And>j. getParent ?s j = (if j = ?i then Some new else getParent s j)"
      by (simp add: getParent_def par)
    have only_old: "\<And>q. registered s q \<Longrightarrow> a \<in> set (entries (heap s q)) \<Longrightarrow> q = old"
      using inv_childrenD [OF inv] old by auto
    have K: "inv_keys ?s"
      unfolding inv_keys_def using inv_keysD [OF inv] by (simp add: obj)
    have P: "inv_parents ?s"
      unfolding inv_parents_def
    proof (intro allI impI)
      fix j q assume jq: "getParent ?s j = Some q"
      show "registered ?s q \<and> etype (heap ?s q) = Folder \<and>
            (\<exists>b. objects ?s j = Some b \<and> b \<in> set (entries (heap ?s q)))"
      proof (cases "j = ?i")
        case True
        then have "q = new" using jq by (simp add: gp')
        moreover have "a \<in> set (entries (heap ?s new))" by (subst ent) simp
        ultimately show ?thesis using True rnew fnew oa by (simp add: reg' obj)
      next
        case False
        then have q: "getParent s j = Some q" using jq by (simp add: gp')
        from inv_parentsD [OF inv q] obtain b where
          b: "registered s q" "etype (heap s q) = Folder" "objects s j = Some b"
             "b \<in> set (entries (heap s q))" by blast
        have "b \<noteq> a" using inv_keysD [OF inv b(3)] False by auto
        then have "b \<in> set (entries (heap ?s q))" using b(4) by (subst ent) auto
        then show ?thesis using b(1,2,3) by (simp add: reg' obj)
      qed
    qed
    have C: "inv_children ?s"
      unfolding inv_children_def
    proof (intro allI impI)
      fix q c assume q: "registered ?s q" and c: "c \<in> set (entries (heap ?s q))"
      have rq: "registered s q" using q by (simp add: reg')
      show "registered ?s c \<and> getParent ?s (eid (heap ?s c)) = Some q"
      proof (cases "c = a")
        case True
        have "q = new"
        proof (rule ccontr)
          assume n: "q \<noteq> new"
          then have "a \<in> set (entries (heap s q))" "q \<noteq> old"
            using c True by (simp_all add: ent split: if_splits)
          then show False using only_old [OF rq] by simp
        qed
        then show ?thesis using True a by (simp add: reg' gp')
      next
        case False
        then have c': "c \<in> set (entries (heap s q))"
          using c by (simp add: ent split: if_splits)
        from inv_childrenD [OF inv rq c'] have
          rc: "registered s c" "getParent s (eid (heap s c)) = Some q" by simp_all
        have "eid (heap s c) \<noteq> ?i" using registered_eq [OF inv rc(1) a] False by blast
        then show ?thesis using rc by (simp add: reg' gp')
      qed
    qed
    have D: "inv_distinct ?s"
      unfolding inv_distinct_def
    proof (intro allI impI)
      fix q assume q: "registered ?s q"
      have rq: "registered s q" using q by (simp add: reg')
      show "distinct (entries (heap ?s q))"
        by (subst ent) (use inv_distinctD [OF inv rq] in auto)
    qed
    show ?thesis using K P C D by (simp add: store_inv_def)
  qed
qed

lemma alloc_inv_cong:
  assumes "objects s' = objects s" "nextAddr s' = nextAddr s" "nextId s' = nextId s"
  shows "alloc_inv s' = alloc_inv s"
  using assms by (simp add: alloc_inv_def)

lemma good_move:
  assumes g: "good s" and a: "registered s a"
  shows "good (snd (move a pid s))"
  using store_inv_move [OF goodD(1) [OF g] a] goodD(2) [OF g]
    alloc_inv_cong [of "snd (move a pid s)" s] move_objects [OF goodD(1) [OF g] a]
  by (simp add: good_def)

lemma good_set_name [simp]: "good (set_name a n s) = good s"
  using alloc_inv_cong [of "set_name a n s" s] by (simp add: good_def)

lemma good_set_content [simp]: "good (snd (set_content a v s)) = good s"
  using alloc_inv_cong [of "snd (set_content a v s)" s] by (simp add: good_def)

text \<open>In a tree, the number of descendants is a rank.\<close>

lemma finite_dom_objects:
  assumes g: "good s" shows "finite (dom (objects s))"
proof -
  have "dom (objects s) \<subseteq> (\<lambda>a. eid (heap s a)) ` {a. a < nextAddr s}"
  proof
    fix i assume "i \<in> dom (objects s)"
    then obtain a where a: "objects s i = Some a" by auto
    have "eid (heap s a) = i" using inv_keysD [OF goodD(1) [OF g] a] .
    moreover have "a < nextAddr s" using alloc_addr [OF goodD(2) [OF g] a] .
    ultimately show "i \<in> (\<lambda>a. eid (heap s a)) ` {a. a < nextAddr s}" by auto
  qed
  then show ?thesis by (rule finite_subset) simp
qed

lemma parent_rel_dom:
  assumes inv: "store_inv s" and e: "(j, k) \<in> parent_rel s"
  shows "j \<in> dom (objects s)"
proof -
  from e obtain p where "getParent s j = Some p" by (auto simp: parent_rel_def parent_id_def)
  then show ?thesis using inv_parentsD [OF inv] by blast
qed

lemma finite_descendants:
  assumes g: "good s" shows "finite {j. (j, k) \<in> (parent_rel s)\<^sup>+}"
proof -
  have "{j. (j, k) \<in> (parent_rel s)\<^sup>+} \<subseteq> dom (objects s)"
  proof
    fix j assume "j \<in> {j. (j, k) \<in> (parent_rel s)\<^sup>+}"
    then have "(j, k) \<in> (parent_rel s)\<^sup>+" by simp
    then obtain m where "(j, m) \<in> parent_rel s" by (auto elim: converse_tranclE)
    then show "j \<in> dom (objects s)" by (rule parent_rel_dom [OF goodD(1) [OF g]])
  qed
  then show ?thesis using finite_dom_objects [OF g] by (rule finite_subset)
qed

lemma child_edge:
  assumes inv: "store_inv s" and p: "registered s p" and c: "c \<in> set (entries (heap s p))"
  shows "(eid (heap s c), eid (heap s p)) \<in> parent_rel s"
  using inv_childrenD [OF inv p c] by (simp add: parent_rel_def parent_id_def)

lemma ranked_descendants:
  assumes t: "tree s" shows "ranked s (descendants s) b"
  unfolding ranked_def
proof (intro allI impI)
  fix p c assume p: "registered s p" and c: "c \<in> set (entries (heap s p))"
  have g: "good s" and ac: "acyclic (parent_rel s)" using t by (simp_all add: tree_def)
  let ?r = "parent_rel s"
  let ?D = "\<lambda>k. {j. (j, k) \<in> ?r\<^sup>+}"
  have e: "(eid (heap s c), eid (heap s p)) \<in> ?r"
    by (rule child_edge [OF goodD(1) [OF g] p c])
  have sub: "?D (eid (heap s c)) \<subseteq> ?D (eid (heap s p))"
    using e by (auto intro: trancl_into_trancl)
  have "eid (heap s c) \<in> ?D (eid (heap s p))" using e by auto
  moreover have "eid (heap s c) \<notin> ?D (eid (heap s c))" using ac by (auto simp: acyclic_def)
  ultimately have "?D (eid (heap s c)) \<subset> ?D (eid (heap s p))" using sub by blast
  then show "descendants s c < descendants s p"
    unfolding descendants_def by (rule psubset_card_mono [OF finite_descendants [OF g]])
qed

text \<open>Deleting keeps a tree a tree.\<close>

lemma alloc_inv_shrinks:
  assumes al: "alloc_inv s" and sh: "shrinks s s'"
  shows "alloc_inv s'"
  unfolding alloc_inv_def
proof (intro conjI allI impI)
  fix i a assume o: "objects s' i = Some a"
  have "objects s' i = None \<and> parents s' i = None \<or>
        objects s' i = objects s i \<and> parents s' i = parents s i"
    using shrinks_survives [OF sh] by (simp add: survives_def)
  then have "objects s i = Some a" using o by auto
  then show "a < nextAddr s'" using alloc_addr [OF al] sh by (simp add: shrinks_def)
next
  fix m assume m: "nextId s' \<le> m"
  have "objects s' (String m) = None \<and> parents s' (String m) = None \<or>
        objects s' (String m) = objects s (String m) \<and> parents s' (String m) = parents s (String m)"
    using shrinks_survives [OF sh] by (simp add: survives_def)
  moreover have "objects s (String m) = None"
    using alloc_id [OF al, of m] m sh by (simp add: shrinks_def)
  ultimately show "objects s' (String m) = None" by auto
qed

lemma good_deleteFile:
  assumes g: "good s" shows "good (snd (deleteFile i s))"
proof (cases "objects s i")
  case None
  then show ?thesis using g by (simp add: deleteFile_def)
next
  case (Some a)
  show ?thesis
  proof (cases "etype (heap s a) = File")
    case False
    then show ?thesis using g Some by (simp add: deleteFile_def)
  next
    case True
    have inv: "store_inv s" using g by (simp add: good_def)
    have ra: "registered s a" by (rule registeredI [OF inv Some])
    have "etype (heap s a) \<noteq> Folder" using True by simp
    then have e: "entries (heap s a) = []" by (rule registered_leaf [OF inv ra])
    have d: "deleteFile i s = unregister a s" using Some True by (simp add: deleteFile_def)
    have "store_inv (snd (unregister a s))" by (rule unregister_inv(1) [OF inv ra e])
    moreover have "alloc_inv (snd (unregister a s))"
      by (rule alloc_inv_shrinks [OF goodD(2) [OF g] shrinks_unregister])
    ultimately show ?thesis unfolding d by (simp add: good_def)
  qed
qed

lemma deleteFolder_noop:
  "objects s i = None \<or> (\<exists>a. objects s i = Some a \<and> etype (heap s a) \<noteq> Folder) \<Longrightarrow>
   snd (deleteFolder d i s) = s"
  by (cases d) auto

lemma good_deleteFolder:
  assumes t: "tree s" shows "good (snd (deleteFolder d i s))"
proof -
  have g: "good s" using t by (simp add: tree_def)
  have inv: "store_inv s" using g by (simp add: good_def)
  show ?thesis
  proof (cases "\<exists>a. objects s i = Some a \<and> etype (heap s a) = Folder")
    case False
    then have "objects s i = None \<or> (\<exists>a. objects s i = Some a \<and> etype (heap s a) \<noteq> Folder)"
      by (cases "objects s i") auto
    then show ?thesis using g deleteFolder_noop [of s i d] by simp
  next
    case True
    then obtain a where a: "objects s i = Some a" and f: "etype (heap s a) = Folder" by blast
    have ra: "registered s a" by (rule registeredI [OF inv a])
    have ia: "eid (heap s a) = i" by (rule inv_keysD [OF inv a])
    have "delete_ok (descendants s) d a s"
      using deleteFolder_ok [of "descendants s" "Suc (descendants s a)" d] inv
        ranked_descendants [OF t, of "Suc (descendants s a)"] ra f
      by (simp del: deleteFolder.simps)
    then have "store_inv (snd (deleteFolder d i s))"
      by (simp add: delete_ok_def Let_def ia)
    moreover have "alloc_inv (snd (deleteFolder d i s))"
      by (rule alloc_inv_shrinks [OF goodD(2) [OF g] shrinks_delete(1)])
    ultimately show ?thesis by (simp add: good_def)
  qed
qed

lemma parent_rel_shrinks:
  assumes sh: "shrinks s s'" shows "parent_rel s' \<subseteq> parent_rel s"
proof
  fix e assume e: "e \<in> parent_rel s'"
  obtain j k where jk: "e = (j, k)" by (cases e)
  from e jk obtain p where p: "getParent s' j = Some p" "eid (heap s' p) = k"
    by (auto simp: parent_rel_def parent_id_def)
  have "objects s' j = None \<and> parents s' j = None \<or>
        objects s' j = objects s j \<and> parents s' j = parents s j"
    using shrinks_survives [OF sh] by (simp add: survives_def)
  moreover have "parents s' j \<noteq> None" using p(1) by (auto simp: getParent_def split: option.splits)
  ultimately have "parents s' j = parents s j" by auto
  then have "getParent s j = Some p" using p(1) by (simp add: getParent_def)
  moreover have "eid (heap s p) = k" using p(2) shrinks_eid [OF sh, of p] by simp
  ultimately show "e \<in> parent_rel s" using jk by (simp add: parent_rel_def parent_id_def)
qed

lemma acyclic_shrinks:
  "acyclic (parent_rel s) \<Longrightarrow> shrinks s s' \<Longrightarrow> acyclic (parent_rel s')"
  using parent_rel_shrinks [of s s'] by (rule_tac acyclic_subset) auto

lemma tree_deleteFile: "tree s \<Longrightarrow> tree (snd (deleteFile i s))"
  using good_deleteFile [of s i] acyclic_shrinks [OF _ shrinks_deleteFile, of s i]
  by (simp add: tree_def)

lemma tree_deleteFolder: "tree s \<Longrightarrow> tree (snd (deleteFolder d i s))"
  using good_deleteFolder [of s d i] acyclic_shrinks [OF _ shrinks_delete(1), of s d i]
  by (simp add: tree_def)

text \<open>Creating and moving keep a tree a tree.\<close>

text \<open>No edge of the parent relation leads to an id that is not registered.\<close>

lemma parent_rel_target:
  assumes inv: "store_inv s" and e: "(j, k) \<in> parent_rel s"
  shows "\<exists>p. objects s k = Some p \<and> etype (heap s p) = Folder"
proof -
  from e obtain p where p: "getParent s j = Some p" "eid (heap s p) = k"
    by (auto simp: parent_rel_def parent_id_def)
  have "registered s p" "etype (heap s p) = Folder" using inv_parentsD [OF inv p(1)] by simp_all
  then show ?thesis using p(2) by (auto simp: registered_def)
qed

lemma rtrancl_target:
  assumes inv: "store_inv s" and e: "(j, k) \<in> (parent_rel s)\<^sup>*" and ne: "j \<noteq> k"
  shows "\<exists>p. objects s k = Some p \<and> etype (heap s p) = Folder"
proof -
  from e ne obtain m where "(m, k) \<in> parent_rel s" by (auto elim: rtranclE)
  then show ?thesis by (rule parent_rel_target [OF inv])
qed

lemma acyclic_create:
  assumes g: "good s" and ac: "acyclic (parent_rel s)"
    and par: "objects s pid = Some parent"
    and a: "a = nextAddr s" and i: "i = String (nextId s)"
    and e1: "\<And>x. eid (heap s' x) = (if x = a then i else eid (heap s x))"
    and p: "parents s' = (parents s)(i \<mapsto> Some parent)"
  shows "acyclic (parent_rel s')"
proof -
  have inv: "store_inv s" and al: "alloc_inv s" using g by (simp_all add: good_def)
  have fresh_i: "objects s i = None" using alloc_id [OF al, of "nextId s"] i by simp
  have ppid: "eid (heap s parent) = pid" by (rule inv_keysD [OF inv par])
  have pa: "parent \<noteq> a" using alloc_addr [OF al par] a by simp
  have sub: "parent_rel s' \<subseteq> insert (i, pid) (parent_rel s)"
  proof
    fix e assume e: "e \<in> parent_rel s'"
    obtain j k where jk: "e = (j, k)" by (cases e)
    from e jk obtain q where q: "getParent s' j = Some q" "eid (heap s' q) = k"
      by (auto simp: parent_rel_def parent_id_def)
    show "e \<in> insert (i, pid) (parent_rel s)"
    proof (cases "j = i")
      case True
      then have "q = parent" using q(1) by (simp add: getParent_def p)
      then have "k = pid" using q(2) pa ppid by (simp add: e1)
      then show ?thesis using jk True by simp
    next
      case False
      then have q': "getParent s j = Some q" using q(1) by (simp add: getParent_def p)
      have "registered s q" using inv_parentsD [OF inv q'] by simp
      then have "q \<noteq> a" using registered_alloc [OF g] a by auto
      then have "eid (heap s q) = k" using q(2) by (simp add: e1)
      then show ?thesis using jk q' by (simp add: parent_rel_def parent_id_def)
    qed
  qed
  have "(pid, i) \<notin> (parent_rel s)\<^sup>*"
  proof
    assume r: "(pid, i) \<in> (parent_rel s)\<^sup>*"
    have "pid \<noteq> i" using par fresh_i by auto
    from rtrancl_target [OF inv r this] show False using fresh_i by simp
  qed
  then have "acyclic (insert (i, pid) (parent_rel s))" using ac by (simp add: acyclic_insert)
  then show ?thesis using sub by (rule acyclic_subset)
qed

lemma tree_createFolder:
  assumes t: "tree s" shows "tree (snd (createFolder nm p s))"
proof -
  have g: "good s" and ac: "acyclic (parent_rel s)" using t by (simp_all add: tree_def)
  let ?pid = "case p of None \<Rightarrow> eid (heap s (root s)) | Some q \<Rightarrow> q"
  show ?thesis
  proof (cases "\<exists>parent. objects s ?pid = Some parent \<and> etype (heap s parent) = Folder")
    case False
    then have "objects s ?pid = None \<or>
        (\<exists>parent. objects s ?pid = Some parent \<and> etype (heap s parent) \<noteq> Folder)"
      by (cases "objects s ?pid") auto
    then show ?thesis using t createFolder_error [of s p nm] by simp
  next
    case True
    then obtain parent where par: "objects s ?pid = Some parent"
      and f: "etype (heap s parent) = Folder" by blast
    have ne: "parent \<noteq> nextAddr s" using alloc_addr [OF goodD(2) [OF g] par] by simp
    note fl = createFolder_fields [OF par f ne, of nm]
    have "acyclic (parent_rel (snd (createFolder nm p s)))"
      by (rule acyclic_create [OF g ac par refl refl]) (simp_all add: fl)
    then show ?thesis using good_createFolder [OF g, of nm p] by (simp add: tree_def)
  qed
qed

lemma tree_createFile:
  assumes t: "tree s" shows "tree (snd (createFile nm p c s))"
proof -
  have g: "good s" and ac: "acyclic (parent_rel s)" using t by (simp_all add: tree_def)
  let ?pid = "case p of None \<Rightarrow> eid (heap s (root s)) | Some q \<Rightarrow> q"
  show ?thesis
  proof (cases "\<exists>parent. objects s ?pid = Some parent \<and> etype (heap s parent) = Folder")
    case False
    then have "objects s ?pid = None \<or>
        (\<exists>parent. objects s ?pid = Some parent \<and> etype (heap s parent) \<noteq> Folder)"
      by (cases "objects s ?pid") auto
    then show ?thesis using t createFile_error [of s p nm c] by simp
  next
    case True
    then obtain parent where par: "objects s ?pid = Some parent"
      and f: "etype (heap s parent) = Folder" by blast
    have ne: "parent \<noteq> nextAddr s" using alloc_addr [OF goodD(2) [OF g] par] by simp
    note fl = createFile_fields [OF par f ne, of nm c]
    have "acyclic (parent_rel (snd (createFile nm p c s)))"
      by (rule acyclic_create [OF g ac par refl refl]) (simp_all add: fl)
    then show ?thesis using good_createFile [OF g, of nm p c] by (simp add: tree_def)
  qed
qed

lemma tree_move:
  assumes t: "tree s" and a: "registered s a"
    and safe: "\<And>new. objects s pid = Some new \<Longrightarrow> etype (heap s new) = Folder \<Longrightarrow>
                 (pid, eid (heap s a)) \<notin> (parent_rel s)\<^sup>*"
  shows "tree (snd (move a pid s))"
proof -
  have g: "good s" and ac: "acyclic (parent_rel s)" using t by (simp_all add: tree_def)
  have inv: "store_inv s" using g by (simp add: good_def)
  let ?s = "snd (move a pid s)"
  let ?i = "eid (heap s a)"
  from move_cases [of a pid s] show ?thesis
  proof
    assume "?s = s" then show ?thesis using t by simp
  next
    assume "\<exists>old new. getParent s ?i = Some old \<and> objects s pid = Some new \<and>
      etype (heap s new) = Folder \<and> fst (move a pid s) = Inr () \<and>
      ?s = register a (Some new) (remove old a s)"
    then obtain old new where old: "getParent s ?i = Some old"
      and new: "objects s pid = Some new" and fnew: "etype (heap s new) = Folder"
      by (elim exE conjE)
    have par: "parents ?s = (parents s)(?i \<mapsto> Some new)"
      by (rule move_parents [OF old new fnew])
    have npid: "eid (heap s new) = pid" by (rule inv_keysD [OF inv new])
    have sub: "parent_rel ?s \<subseteq> insert (?i, pid) (parent_rel s)"
    proof
      fix e assume e: "e \<in> parent_rel ?s"
      obtain j k where jk: "e = (j, k)" by (cases e)
      from e jk obtain q where q: "getParent ?s j = Some q" "eid (heap s q) = k"
        by (auto simp: parent_rel_def parent_id_def)
      show "e \<in> insert (?i, pid) (parent_rel s)"
      proof (cases "j = ?i")
        case True
        then have "q = new" using q(1) by (simp add: getParent_def par)
        then show ?thesis using jk True q(2) npid by simp
      next
        case False
        then have "getParent s j = Some q" using q(1) by (simp add: getParent_def par)
        then show ?thesis using jk q(2) by (simp add: parent_rel_def parent_id_def)
      qed
    qed
    have "(pid, ?i) \<notin> (parent_rel s)\<^sup>*" by (rule safe [OF new fnew])
    then have "acyclic (insert (?i, pid) (parent_rel s))" using ac by (simp add: acyclic_insert)
    then have "acyclic (parent_rel ?s)" using sub by (rule acyclic_subset)
    then show ?thesis using good_move [OF g a, of pid] by (simp add: tree_def)
  qed
qed

lemma parent_rel_frame [simp]:
  "parent_rel (set_name a n s) = parent_rel s"
  "parent_rel (snd (set_content a v s)) = parent_rel s"
  by (simp_all add: parent_rel_def)

lemma tree_frame [simp]:
  "tree (set_name a n s) = tree s"
  "tree (snd (set_content a v s)) = tree s"
  by (simp_all add: tree_def)

text \<open>The store an update leaves.\<close>

lemma snd_bind_const: "snd (bind r (\<lambda>u s'. (g s', s'))) = snd r"
  by (cases r) (auto simp: bind_def split: sum.splits)

lemma updateFolder_store:
  assumes "objects s i = Some a" and "etype (heap s a) = Folder"
  shows "snd (updateFolder i nm p s) =
     (let s1 = (if truthy_string nm then set_name a (the nm) s else s)
      in if truthy_string p then snd (move a (the p) s1) else s1)"
  using assms by (simp add: updateFolder_def Let_def snd_bind_const)

lemma updateFolder_noop:
  "objects s i = None \<or> (\<exists>a. objects s i = Some a \<and> etype (heap s a) \<noteq> Folder) \<Longrightarrow>
   snd (updateFolder i nm p s) = s"
  by (auto simp: updateFolder_def)

lemma updateFile_store:
  assumes "objects s i = Some a" and "etype (heap s a) = File"
  shows "\<exists>s2. (\<forall>x. eid (heap s2 x) = eid (heap s x)) \<and> (\<forall>x. etype (heap s2 x) = etype (heap s x)) \<and>
           objects s2 = objects s \<and> parent_rel s2 = parent_rel s \<and>
           tree s2 = tree s \<and> good s2 = good s \<and>
           (snd (updateFile i nm c p s) = s2 \<or> snd (updateFile i nm c p s) = snd (move a (the p) s2))"
proof -
  define s1 where "s1 = (if truthy_string nm then set_name a (the nm) s else s)"
  define r1 where "r1 = (if truthy_content c then set_content a c s1 else (Inr (), s1))"
  have u: "updateFile i nm c p s =
      bind r1 (\<lambda>u s2. if truthy_string p
          then bind (move a (the p) s2) (\<lambda>u s3. (Inr (toJSON s3 a), s3))
          else (Inr (toJSON s2 a), s2))"
    using assms by (simp add: updateFile_def s1_def r1_def Let_def)
  have f: "\<forall>x. eid (heap (snd r1) x) = eid (heap s x)" "\<forall>x. etype (heap (snd r1) x) = etype (heap s x)"
    "objects (snd r1) = objects s" "parent_rel (snd r1) = parent_rel s"
    "tree (snd r1) = tree s" "good (snd r1) = good s"
    by (simp_all add: r1_def s1_def)
  have "snd (updateFile i nm c p s) = snd r1 \<or>
        snd (updateFile i nm c p s) = snd (move a (the p) (snd r1))"
    unfolding u by (cases "fst r1") (simp_all add: bind_err bind_ok snd_bind_const)
  then show ?thesis using f by blast
qed

lemma updateFile_noop:
  "objects s i = None \<or> (\<exists>a. objects s i = Some a \<and> etype (heap s a) \<noteq> File) \<Longrightarrow>
   snd (updateFile i nm c p s) = s"
  by (auto simp: updateFile_def)

text \<open>Every call that is safe keeps the store a tree.\<close>

lemma good_updateFolder:
  assumes g: "good s" shows "good (snd (updateFolder i nm p s))"
proof (cases "\<exists>a. objects s i = Some a \<and> etype (heap s a) = Folder")
  case False
  then have "objects s i = None \<or> (\<exists>a. objects s i = Some a \<and> etype (heap s a) \<noteq> Folder)"
    by (cases "objects s i") auto
  then show ?thesis using g updateFolder_noop [of s i nm p] by simp
next
  case True
  then obtain a where a: "objects s i = Some a" and f: "etype (heap s a) = Folder" by blast
  define s1 where "s1 = (if truthy_string nm then set_name a (the nm) s else s)"
  have g1: "good s1" using g by (simp add: s1_def)
  have r1: "registered s1 a"
    using registeredI [OF goodD(1) [OF g] a] by (simp add: s1_def)
  have "snd (updateFolder i nm p s) = (if truthy_string p then snd (move a (the p) s1) else s1)"
    using updateFolder_store [OF a f, of nm p] by (simp add: s1_def Let_def)
  then show ?thesis using g1 good_move [OF g1 r1, of "the p"] by simp
qed

lemma good_updateFile:
  assumes g: "good s" shows "good (snd (updateFile i nm c p s))"
proof (cases "\<exists>a. objects s i = Some a \<and> etype (heap s a) = File")
  case False
  then have "objects s i = None \<or> (\<exists>a. objects s i = Some a \<and> etype (heap s a) \<noteq> File)"
    by (cases "objects s i") auto
  then show ?thesis using g updateFile_noop [of s i nm c p] by simp
next
  case True
  then obtain a where a: "objects s i = Some a" and f: "etype (heap s a) = File" by blast
  from updateFile_store [OF a f, of nm c p] obtain s2 where
    s2: "\<forall>x. eid (heap s2 x) = eid (heap s x)" "objects s2 = objects s" "good s2 = good s"
      "snd (updateFile i nm c p s) = s2 \<or> snd (updateFile i nm c p s) = snd (move a (the p) s2)"
    by (elim exE conjE)
  have g2: "good s2" using g s2(3) by simp
  have r2: "registered s2 a"
    using registeredI [OF goodD(1) [OF g] a] s2(1,2) by (simp add: registered_def)
  from s2(4) show ?thesis
  proof
    assume "snd (updateFile i nm c p s) = s2" then show ?thesis using g2 by simp
  next
    assume "snd (updateFile i nm c p s) = snd (move a (the p) s2)"
    then show ?thesis using good_move [OF g2 r2, of "the p"] by simp
  qed
qed

lemma tree_updateFolder:
  assumes t: "tree s" and safe: "truthy_string p \<longrightarrow> (the p, i) \<notin> (parent_rel s)\<^sup>*"
  shows "tree (snd (updateFolder i nm p s))"
proof (cases "\<exists>a. objects s i = Some a \<and> etype (heap s a) = Folder")
  case False
  then have "objects s i = None \<or> (\<exists>a. objects s i = Some a \<and> etype (heap s a) \<noteq> Folder)"
    by (cases "objects s i") auto
  then show ?thesis using t updateFolder_noop [of s i nm p] by simp
next
  case True
  then obtain a where a: "objects s i = Some a" and f: "etype (heap s a) = Folder" by blast
  have inv: "store_inv s" using t by (simp add: tree_def good_def)
  define s1 where "s1 = (if truthy_string nm then set_name a (the nm) s else s)"
  have t1: "tree s1" using t by (simp add: s1_def)
  have r1: "registered s1 a" using registeredI [OF inv a] by (simp add: s1_def)
  have i1: "eid (heap s1 a) = i" using inv_keysD [OF inv a] by (simp add: s1_def)
  have p1: "parent_rel s1 = parent_rel s" by (simp add: s1_def)
  have u: "snd (updateFolder i nm p s) = (if truthy_string p then snd (move a (the p) s1) else s1)"
    using updateFolder_store [OF a f, of nm p] by (simp add: s1_def Let_def)
  show ?thesis
  proof (cases "truthy_string p")
    case False
    then show ?thesis using u t1 by simp
  next
    case True
    then have "(the p, eid (heap s1 a)) \<notin> (parent_rel s1)\<^sup>*" using safe i1 p1 by simp
    then have "tree (snd (move a (the p) s1))" using tree_move [OF t1 r1] by blast
    then show ?thesis using u True by simp
  qed
qed

lemma tree_updateFile:
  assumes t: "tree s" shows "tree (snd (updateFile i nm c p s))"
proof (cases "\<exists>a. objects s i = Some a \<and> etype (heap s a) = File")
  case False
  then have "objects s i = None \<or> (\<exists>a. objects s i = Some a \<and> etype (heap s a) \<noteq> File)"
    by (cases "objects s i") auto
  then show ?thesis using t updateFile_noop [of s i nm c p] by simp
next
  case True
  then obtain a where a: "objects s i = Some a" and f: "etype (heap s a) = File" by blast
  have inv: "store_inv s" using t by (simp add: tree_def good_def)
  from updateFile_store [OF a f, of nm c p] obtain s2 where
    s2: "\<forall>x. eid (heap s2 x) = eid (heap s x)" "\<forall>x. etype (heap s2 x) = etype (heap s x)"
      "objects s2 = objects s" "parent_rel s2 = parent_rel s" "tree s2 = tree s"
      "snd (updateFile i nm c p s) = s2 \<or> snd (updateFile i nm c p s) = snd (move a (the p) s2)"
    by (elim exE conjE)
  have t2: "tree s2" using t s2(5) by simp
  have inv2: "store_inv s2" using t2 by (simp add: tree_def good_def)
  have a2: "objects s2 i = Some a" using a s2(3) by simp
  have f2: "etype (heap s2 a) = File" using f s2(2) by simp
  have r2: "registered s2 a" by (rule registeredI [OF inv2 a2])
  have i2: "eid (heap s2 a) = i" by (rule inv_keysD [OF inv2 a2])
  have safe: "(the p, eid (heap s2 a)) \<notin> (parent_rel s2)\<^sup>*"
    if new: "objects s2 (the p) = Some new" and fn: "etype (heap s2 new) = Folder" for new
  proof
    assume r: "(the p, eid (heap s2 a)) \<in> (parent_rel s2)\<^sup>*"
    have ne: "the p \<noteq> i"
    proof
      assume "the p = i"
      then have "new = a" using new a2 by simp
      then show False using fn f2 by simp
    qed
    from rtrancl_target [OF inv2 r [unfolded i2] ne]
    obtain q where "objects s2 i = Some q" "etype (heap s2 q) = Folder" by blast
    then show False using a2 f2 by simp
  qed
  from s2(6) show ?thesis
  proof
    assume "snd (updateFile i nm c p s) = s2" then show ?thesis using t2 by simp
  next
    assume "snd (updateFile i nm c p s) = snd (move a (the p) s2)"
    then show ?thesis using tree_move [OF t2 r2 safe] by simp
  qed
qed

lemma tree_step:
  assumes t: "tree s" and s: "safe c s" shows "tree (step c s)"
proof (cases c)
  case (CreateFile nm p ct)
  then show ?thesis using tree_createFile [OF t] by simp
next
  case (CreateFolder nm p)
  then show ?thesis using tree_createFolder [OF t] by simp
next
  case (GetFile i)
  then show ?thesis using t by (simp add: getFile_def split: option.splits)
next
  case (GetFileContent i)
  then show ?thesis using t by (simp add: getFileContent_def split: option.splits)
next
  case (GetFolder i)
  then show ?thesis using t by (simp add: getFolder_def split: option.splits)
next
  case (UpdateFile i nm ct p)
  then show ?thesis using tree_updateFile [OF t] by simp
next
  case (UpdateFolder i nm p)
  then show ?thesis using tree_updateFolder [OF t, of p i nm] s by simp
next
  case (DeleteFile i)
  then show ?thesis using tree_deleteFile [OF t] by simp
next
  case (DeleteFolder d i)
  then show ?thesis using tree_deleteFolder [OF t] by simp
qed

lemma tree_run: "tree s \<Longrightarrow> safe_run cs s \<Longrightarrow> tree (run cs s)"
  by (induction cs arbitrary: s) (simp_all add: tree_step)

lemma tree_ObjectStore:
  assumes "root_id_ok n r" shows "tree (ObjectStore n clk r)"
proof -
  have "parent_rel (ObjectStore n clk r) = {}"
    by (simp add: parent_rel_def parent_id_def getParent_def ObjectStore_fields)
  then show ?thesis using good_ObjectStore [OF assms, of clk] by (simp add: tree_def acyclic_def)
qed

section \<open>The parent relation stays acyclic in safe runs\<close>

lemma parent_chain:
  "(i, j) \<in> (parent_rel s)\<^sup>* \<Longrightarrow>
   i = j \<or> (\<exists>k. parent_id s i = Some k \<and> (k, j) \<in> (parent_rel s)\<^sup>*)"
  by (erule converse_rtranclE) (auto simp: parent_rel_def)

text \<open>
  C2, amended. Let the root id not be the decimal form of a number the counter has yet
  to issue, and let a sequence of calls on the new store contain no \<open>updateFolder\<close> whose
  new parent is the folder itself or one of its descendants, and no \<open>deleteFolder\<close> that
  exhausts the stack. Then the parent relation of the store the sequence leaves is
  acyclic: no id is its own ancestor. \<open>updateFolder\<close> itself makes no such check: it
  moves a folder into itself when asked to, so the condition is the caller's to keep.
\<close>

theorem parent_relation_acyclic_in_safe_runs:
  assumes "root_id_ok n r" and "safe_run cs (ObjectStore n clk r)"
  shows "acyclic (parent_rel (run cs (ObjectStore n clk r)))"
  using tree_run [OF tree_ObjectStore [OF assms(1)] assms(2)] by (simp add: tree_def)

theorem parent_relation_acyclic_in_safe_runs_witness:
  "root_id_ok 0 (Some ''0'') \<and>
   safe_run [CreateFolder ''a'' None, CreateFolder ''b'' None, UpdateFolder ''2'' None (Some ''1''),
             DeleteFolder 3 ''1''] (ObjectStore 0 (\<lambda>k. k) (Some ''0'')) \<and>
   parent_id (run [CreateFolder ''a'' None, CreateFolder ''b'' None]
     (ObjectStore 0 (\<lambda>k. k) (Some ''0''))) ''2'' = Some ''0'' \<and>
   parent_id (run [CreateFolder ''a'' None, CreateFolder ''b'' None, UpdateFolder ''2'' None (Some ''1'')]
     (ObjectStore 0 (\<lambda>k. k) (Some ''0''))) ''2'' = Some ''1'' \<and>
   acyclic (parent_rel (run [CreateFolder ''a'' None, CreateFolder ''b'' None,
             UpdateFolder ''2'' None (Some ''1''), DeleteFolder 3 ''1'']
     (ObjectStore 0 (\<lambda>k. k) (Some ''0''))))"
proof -
  let ?S = "ObjectStore 0 (\<lambda>k. k) (Some ''0'')"
  let ?s2 = "step (CreateFolder ''b'' None) (step (CreateFolder ''a'' None) ?S)"
  have r: "root_id_ok 0 (Some ''0'')"
    by (simp add: root_id_ok_def String_0 [symmetric])
  have u: "(''1'', ''2'') \<notin> (parent_rel ?s2)\<^sup>*"
  proof
    assume "(''1'', ''2'') \<in> (parent_rel ?s2)\<^sup>*"
    from parent_chain [OF this] have "(''0'', ''2'') \<in> (parent_rel ?s2)\<^sup>*"
      by (simp add: parent_id_def eval_defs)
    from parent_chain [OF this] show False
      by (simp add: parent_id_def eval_defs)
  qed
  have d: "fst (deleteFolder 3 ''1'' (step (UpdateFolder ''2'' None (Some ''1'')) ?s2))
             \<noteq> Inl Stack_overflow"
    by (simp add: eval_defs eval_nat_numeral)
  have s: "safe_run [CreateFolder ''a'' None, CreateFolder ''b'' None,
             UpdateFolder ''2'' None (Some ''1''), DeleteFolder 3 ''1''] ?S"
    using u d by (simp only: safe_run.simps safe.simps option.sel simp_thms)
  have p: "parent_id (run [CreateFolder ''a'' None, CreateFolder ''b'' None] ?S) ''2'' = Some ''0''"
    by (simp add: parent_id_def eval_defs)
  have q: "parent_id (run [CreateFolder ''a'' None, CreateFolder ''b'' None,
             UpdateFolder ''2'' None (Some ''1'')] ?S) ''2'' = Some ''1''"
    by (simp add: parent_id_def eval_defs)
  from parent_relation_acyclic_in_safe_runs [OF r s]
  show ?thesis using r s p q by (simp only: simp_thms)
qed

section \<open>Deleting below a cycle\<close>

text \<open>
  In \<open>store_mixed\<close> the folder \<open>''3''\<close> is its own parent, and the folder \<open>''1''\<close> with
  the file \<open>''2''\<close> lies outside that cycle: \<open>rank_mixed\<close> ranks the two of them, and
  \<open>deleteFolder(''1'')\<close> with room for two nested calls removes both.
\<close>

theorem deleteFolder_removes_descendants_witness:
  "store_inv store_mixed \<and> ranked store_mixed rank_mixed 2 \<and>
   (''3'', ''3'') \<in> parent_rel store_mixed \<and>
   parent_id store_mixed ''2'' = Some ''1'' \<and>
   fst (getFile ''2'' store_mixed) = Inr (toJSON store_mixed 2) \<and>
   fst (deleteFolder 2 ''1'' store_mixed) = Inr () \<and>
   fst (getFile ''2'' (snd (deleteFolder 2 ''1'' store_mixed))) = Inl File_not_found \<and>
   fst (getFolder ''2'' (snd (deleteFolder 2 ''1'' store_mixed))) = Inl Folder_not_found"
proof -
  have i: "store_inv store_mixed"
    using good_updateFolder [OF good_store3, of "''3''" None "Some ''3''"]
    by (simp add: store_mixed_def good_def)
  have e: "entries (heap store_mixed 1) = [2]" "entries (heap store_mixed 2) = []"
    by (simp_all add: store_mixed_def store3_eval)
  have k: "ranked store_mixed rank_mixed 2"
    unfolding ranked_def rank_mixed_def
  proof (intro allI impI)
    fix p c
    assume "(if p = 1 then 1 else if p = 2 then 0 else (5::nat)) < 2"
      and c: "c \<in> set (entries (heap store_mixed p))"
    then have "p = 1 \<or> p = 2" by (simp split: if_splits)
    then show "(if c = 1 then 1 else if c = 2 then 0 else (5::nat))
               < (if p = 1 then 1 else if p = 2 then 0 else 5)"
      using c e by auto
  qed
  have o: "objects store_mixed ''1'' = Some 1" "etype (heap store_mixed 1) = Folder"
    by (simp_all add: store_mixed_def store3_eval)
  have c: "(''3'', ''3'') \<in> parent_rel store_mixed"
    by (simp add: parent_rel_def parent_id_def store_mixed_def store3_eval)
  have p: "parent_id store_mixed ''2'' = Some ''1''"
    by (simp add: parent_id_def store_mixed_def store3_eval)
  then have "(''2'', ''1'') \<in> parent_rel store_mixed"
    by (simp add: parent_rel_def)
  then have j: "(''2'', ''1'') \<in> (parent_rel store_mixed)\<^sup>*"
    by (rule r_into_rtrancl)
  have g: "getParent store_mixed ''1'' = Some 0"
    by (simp add: store_mixed_def store3_eval)
  have f: "fst (getFile ''2'' store_mixed) = Inr (toJSON store_mixed 2)"
    by (simp add: getFile_def store_mixed_def store3_eval)
  have r: "rank_mixed 1 < 2" by (simp add: rank_mixed_def)
  from deleteFolder_removes_descendants [OF i k o r j]
  show ?thesis using i k c p f g by simp
qed

section \<open>Copies\<close>








subsection \<open>Copies of trees\<close>






lemma extendsD:
  assumes "extends s p s'"
  shows extends_good: "good s'"
    and extends_nextAddr: "nextAddr s \<le> nextAddr s'"
    and extends_objects: "objects s i = Some a \<Longrightarrow> objects s' i = Some a"
    and extends_old: "x < nextAddr s \<Longrightarrow>
          eid (heap s' x) = eid (heap s x) \<and> etype (heap s' x) = etype (heap s x) \<and>
          name (heap s' x) = name (heap s x) \<and> content (heap s' x) = content (heap s x) \<and>
          createdAt (heap s' x) = createdAt (heap s x)"
    and extends_entries: "x < nextAddr s \<Longrightarrow> x \<noteq> p \<Longrightarrow> entries (heap s' x) = entries (heap s x)"
    and extends_new: "nextAddr s \<le> x \<Longrightarrow> x < nextAddr s' \<Longrightarrow>
          objects s (eid (heap s' x)) = None \<and>
          (\<exists>k\<ge>ticks s. createdAt (heap s' x) = clock s k)"
  using assms by (simp_all add: extends_def)





















end
